theory Spec2Isabelle
  imports Main "HOL-Library.Word"
begin

unbundle bit_operations_syntax

section \<open>Buffers, strings and errors\<close>

text \<open>
  A Node.js \<open>Buffer\<close> is a list of bytes. Offsets and lengths are JavaScript numbers;
  every value computed by \<open>src/lib/image/icc_profile.js\<close> is an integer far below
  \<open>2^53\<close>, so they are modelled as \<open>int\<close>. A JavaScript string is the list of
  its UTF-16 code units. An exception is the \<open>Inl\<close> side of a sum:
  \<open>RangeError\<close> is what the runtime raises when a fixed-width read leaves the buffer,
  \<open>Error msg\<close> is \<open>new Error(msg)\<close>.
\<close>

type_synonym byte = "8 word"
type_synonym buffer = "byte list"
type_synonym jsstring = "nat list"

definition str :: "string \<Rightarrow> jsstring" where
  "str s = map of_char s"

datatype js_error = RangeError | Error jsstring

definition readUInt16BE :: "buffer \<Rightarrow> int \<Rightarrow> js_error + int" where
  "readUInt16BE buf off =
     (if 0 \<le> off \<and> off + 2 \<le> int (length buf)
      then Inr (uint (buf ! nat off) * 256 + uint (buf ! nat (off + 1)))
      else Inl RangeError)"

definition readUInt32BE :: "buffer \<Rightarrow> int \<Rightarrow> js_error + int" where
  "readUInt32BE buf off =
     (if 0 \<le> off \<and> off + 4 \<le> int (length buf)
      then Inr (uint (buf ! nat off) * 16777216 + uint (buf ! nat (off + 1)) * 65536
                + uint (buf ! nat (off + 2)) * 256 + uint (buf ! nat (off + 3)))
      else Inl RangeError)"

text \<open>
  \<open>buf.slice(start, stop)\<close> never raises: a negative index counts from the end and
  both indices are clamped to the buffer.
\<close>

definition adjustOffset :: "int \<Rightarrow> int \<Rightarrow> int" where
  "adjustOffset off len = (if off < 0 then max (off + len) 0 else min off len)"

definition slice :: "buffer \<Rightarrow> int \<Rightarrow> int \<Rightarrow> buffer" where
  "slice buf start stop =
     (let len = int (length buf);
          s = adjustOffset start len;
          e = adjustOffset stop len
      in if s < e then take (nat (e - s)) (drop (nat s) buf) else [])"

definition slice_from :: "buffer \<Rightarrow> int \<Rightarrow> buffer" where
  "slice_from buf start = slice buf start (int (length buf))"

text \<open>
  Decoding with the \<open>'ascii'\<close> encoding clears the highest bit of each byte.
  \<open>buf.toString('ascii', start, stop)\<close> clamps its range to the buffer.
\<close>

definition ascii_decode :: "buffer \<Rightarrow> jsstring" where
  "ascii_decode buf = map (\<lambda>b. unat (b AND 0x7F)) buf"

definition toString_ascii :: "buffer \<Rightarrow> int \<Rightarrow> int \<Rightarrow> jsstring" where
  "toString_ascii buf start stop =
     (let len = int (length buf) in
      if 0 < start \<and> len \<le> start then []
      else let s = max start 0; e = (if len < stop then len else stop)
           in if e \<le> s then [] else ascii_decode (take (nat (e - s)) (drop (nat s) buf)))"

definition startsWith :: "jsstring \<Rightarrow> jsstring \<Rightarrow> bool" where
  "startsWith s p = (take (length p) s = p)"

text \<open>
  \<open>buf.toString()\<close> decodes UTF-8; every maximal ill-formed subsequence becomes
  U+FFFD. \<open>utf8_cont n cp lo hi bs\<close> expects \<open>n\<close> more continuation bytes, the next one
  within \<open>lo..hi\<close>. Code points above U+FFFF become a surrogate pair.
\<close>

fun utf8_points :: "buffer \<Rightarrow> nat list"
  and utf8_cont :: "nat \<Rightarrow> nat \<Rightarrow> byte \<Rightarrow> byte \<Rightarrow> buffer \<Rightarrow> nat list" where
  "utf8_points [] = []"
| "utf8_points (b # bs) =
     (if b < 0x80 then unat b # utf8_points bs
      else if 0xC2 \<le> b \<and> b \<le> 0xDF then utf8_cont 0 (unat (b AND 0x1F)) 0x80 0xBF bs
      else if 0xE0 \<le> b \<and> b \<le> 0xEF
        then utf8_cont 1 (unat (b AND 0x0F)) (if b = 0xE0 then 0xA0 else 0x80)
               (if b = 0xED then 0x9F else 0xBF) bs
      else if 0xF0 \<le> b \<and> b \<le> 0xF4
        then utf8_cont 2 (unat (b AND 0x07)) (if b = 0xF0 then 0x90 else 0x80)
               (if b = 0xF4 then 0x8F else 0xBF) bs
      else 0xFFFD # utf8_points bs)"
| "utf8_cont n cp lo hi [] = [0xFFFD]"
| "utf8_cont n cp lo hi (c # cs) =
     (if lo \<le> c \<and> c \<le> hi
      then (case n of
              0 \<Rightarrow> (cp * 64 + unat (c AND 0x3F)) # utf8_points cs
            | Suc m \<Rightarrow> utf8_cont m (cp * 64 + unat (c AND 0x3F)) 0x80 0xBF cs)
      else 0xFFFD # utf8_points (c # cs))"

definition utf16_units :: "nat \<Rightarrow> jsstring" where
  "utf16_units cp =
     (if cp < 0x10000 then [cp]
      else [0xD800 + (cp - 0x10000) div 1024, 0xDC00 + (cp - 0x10000) mod 1024])"

definition utf8_toString :: "buffer \<Rightarrow> jsstring" where
  "utf8_toString buf = concat (map utf16_units (utf8_points buf))"

text \<open>
  \<open>trim()\<close> removes white space and line terminators from both ends. U+0000 is not
  white space.
\<close>

definition is_js_space :: "nat \<Rightarrow> bool" where
  "is_js_space c =
     ((9 \<le> c \<and> c \<le> 13) \<or> c = 32 \<or> c = 0xA0 \<or> c = 0x1680 \<or> (0x2000 \<le> c \<and> c \<le> 0x200A)
      \<or> c = 0x2028 \<or> c = 0x2029 \<or> c = 0x202F \<or> c = 0x205F \<or> c = 0x3000 \<or> c = 0xFEFF)"

definition trim :: "jsstring \<Rightarrow> jsstring" where
  "trim s = rev (dropWhile is_js_space (rev (dropWhile is_js_space s)))"

text \<open>
  \<open>toLowerCase()\<close> is only used to look a string up in \<open>valueMap\<close>, whose keys are
  ASCII. It is modelled exactly on ASCII; the Kelvin sign U+212A is the one character
  outside ASCII whose lower case is an ASCII string. Every other code unit is kept, which
  agrees with JavaScript on whether the result equals a given ASCII string.
\<close>

definition lower_unit :: "nat \<Rightarrow> nat" where
  "lower_unit c = (if 65 \<le> c \<and> c \<le> 90 then c + 32 else if c = 0x212A then 107 else c)"

definition toLowerCase :: "jsstring \<Rightarrow> jsstring" where
  "toLowerCase s = map lower_unit s"

section \<open>extractFromJPEG\<close>

text \<open>
  One iteration of the marker scan (lines 7 to 16): the new position and the fragments
  collected so far.
\<close>

definition jpeg_body :: "buffer \<Rightarrow> int \<Rightarrow> buffer list \<Rightarrow> js_error + (int \<times> buffer list)" where
  "jpeg_body jpeg pos buffers =
     (case readUInt16BE jpeg pos of
        Inl e \<Rightarrow> Inl e
      | Inr marker \<Rightarrow>
          (case readUInt16BE jpeg (pos + 2) of
             Inl e \<Rightarrow> Inl e
           | Inr len \<Rightarrow>
               Inr (pos + len + 2,
                    if marker = 0xffe2
                         \<and> startsWith (toString_ascii jpeg (pos + 4) (pos + 18)) (str ''ICC_PROFILE'')
                    then buffers @ [slice jpeg (pos + 18) (pos + len + 2)]
                    else buffers)))"

lemma readUInt16BE_nonneg: "readUInt16BE buf off = Inr v \<Longrightarrow> 0 \<le> v"
  by (auto simp: readUInt16BE_def split: if_splits)

lemma jpeg_body_advances:
  "jpeg_body jpeg pos buffers = Inr (pos', buffers') \<Longrightarrow> pos + 2 \<le> pos'"
  by (auto simp: jpeg_body_def split: sum.splits dest: readUInt16BE_nonneg)

function jpeg_scan :: "buffer \<Rightarrow> int \<Rightarrow> buffer list \<Rightarrow> js_error + (int \<times> buffer list)" where
  "jpeg_scan jpeg pos buffers =
     (if pos < int (length jpeg) - 4
      then (case jpeg_body jpeg pos buffers of
              Inl e \<Rightarrow> Inl e
            | Inr (pos', buffers') \<Rightarrow> jpeg_scan jpeg pos' buffers')
      else Inr (pos, buffers))"
  by pat_completeness auto
termination
  by (relation "measure (\<lambda>(jpeg, pos, buffers). nat (int (length jpeg) - pos))")
     (auto dest: jpeg_body_advances)

declare jpeg_scan.simps [simp del]

text \<open>The result is \<open>None\<close> for \<open>undefined\<close> (no fragment), else the concatenation.\<close>

definition extractFromJPEG :: "buffer \<Rightarrow> js_error + buffer option" where
  "extractFromJPEG jpeg =
     (case jpeg_scan jpeg 2 [] of
        Inl e \<Rightarrow> Inl e
      | Inr (pos, buffers) \<Rightarrow> Inr (if length buffers = 0 then None else Some (concat buffers)))"

text \<open>The same loop with a bound on the number of iterations; \<open>None\<close> when it is used up.\<close>

fun jpeg_scan_fuel :: "nat \<Rightarrow> buffer \<Rightarrow> int \<Rightarrow> buffer list \<Rightarrow> (js_error + (int \<times> buffer list)) option" where
  "jpeg_scan_fuel 0 jpeg pos buffers =
     (if pos < int (length jpeg) - 4 then None else Some (Inr (pos, buffers)))"
| "jpeg_scan_fuel (Suc n) jpeg pos buffers =
     (if pos < int (length jpeg) - 4
      then (case jpeg_body jpeg pos buffers of
              Inl e \<Rightarrow> Some (Inl e)
            | Inr (pos', buffers') \<Rightarrow> jpeg_scan_fuel n jpeg pos' buffers')
      else Some (Inr (pos, buffers)))"

section \<open>extractFromPNG\<close>

text \<open>
  \<open>zlib.inflateSync\<close> is a parameter: it returns the inflated bytes or the message of
  the error it throws.
\<close>

type_synonym inflater = "buffer \<Rightarrow> jsstring + buffer"

fun indexOf :: "buffer \<Rightarrow> byte \<Rightarrow> int" where
  "indexOf [] v = -1"
| "indexOf (x # xs) v =
     (if x = v then 0 else (let r = indexOf xs v in if r = -1 then -1 else r + 1))"

text \<open>Lines 44 to 68: the \<open>iCCP\<close> chunk at \<open>offset\<close>.\<close>

definition iccp_chunk :: "inflater \<Rightarrow> buffer \<Rightarrow> int \<Rightarrow> int \<Rightarrow> js_error + buffer" where
  "iccp_chunk inflateSync pngBuffer offset chunkLength =
     (let dataStart = offset + 8;
          dataEnd = dataStart + chunkLength;
          data = slice pngBuffer dataStart dataEnd;
          nullPos = indexOf data 0
      in if nullPos = -1 \<or> nullPos = int (length data) - 1
         then Inl (Error (str ''Invalid iCCP chunk format''))
         else if data ! nat (nullPos + 1) \<noteq> 0
         then Inl (Error (str ''Unsupported compression method''))
         else (case inflateSync (slice_from data (nullPos + 2)) of
                 Inl message \<Rightarrow> Inl (Error (str ''Failed to decompress ICC profile: '' @ message))
               | Inr iccProfile \<Rightarrow> Inr iccProfile))"

datatype png_step = Continue int | Finished "buffer option"

text \<open>One iteration of the chunk scan (lines 34 to 71).\<close>

definition png_body :: "inflater \<Rightarrow> buffer \<Rightarrow> int \<Rightarrow> js_error + png_step" where
  "png_body inflateSync pngBuffer offset =
     (case readUInt32BE pngBuffer offset of
        Inl e \<Rightarrow> Inl e
      | Inr chunkLength \<Rightarrow>
          (let chunkType = ascii_decode (slice pngBuffer (offset + 4) (offset + 8))
           in if chunkType = str ''IEND'' then Inr (Finished None)
              else if chunkType = str ''iCCP''
              then (case iccp_chunk inflateSync pngBuffer offset chunkLength of
                      Inl e \<Rightarrow> Inl e
                    | Inr iccProfile \<Rightarrow> Inr (Finished (Some iccProfile)))
              else Inr (Continue (offset + chunkLength + 12))))"

lemma readUInt32BE_nonneg: "readUInt32BE buf off = Inr v \<Longrightarrow> 0 \<le> v"
  by (auto simp: readUInt32BE_def split: if_splits)

lemma png_body_advances:
  "png_body inflateSync pngBuffer offset = Inr (Continue offset') \<Longrightarrow> offset + 12 \<le> offset'"
  by (auto simp: png_body_def Let_def split: sum.splits if_splits dest: readUInt32BE_nonneg)

function png_scan :: "inflater \<Rightarrow> buffer \<Rightarrow> int \<Rightarrow> js_error + buffer option" where
  "png_scan inflateSync pngBuffer offset =
     (if offset < int (length pngBuffer)
      then (case png_body inflateSync pngBuffer offset of
              Inl e \<Rightarrow> Inl e
            | Inr (Finished r) \<Rightarrow> Inr r
            | Inr (Continue offset') \<Rightarrow> png_scan inflateSync pngBuffer offset')
      else Inr None)"
  by pat_completeness auto
termination
  by (relation "measure (\<lambda>(inflateSync, pngBuffer, offset). nat (int (length pngBuffer) - offset))")
     (auto dest: png_body_advances)

declare png_scan.simps [simp del]

definition extractFromPNG :: "inflater \<Rightarrow> buffer \<Rightarrow> js_error + buffer option" where
  "extractFromPNG inflateSync pngBuffer = png_scan inflateSync pngBuffer 8"

text \<open>The same loop with a bound on the number of iterations.\<close>

fun png_scan_fuel :: "nat \<Rightarrow> inflater \<Rightarrow> buffer \<Rightarrow> int \<Rightarrow> (js_error + buffer option) option" where
  "png_scan_fuel 0 inflateSync pngBuffer offset =
     (if offset < int (length pngBuffer) then None else Some (Inr None))"
| "png_scan_fuel (Suc n) inflateSync pngBuffer offset =
     (if offset < int (length pngBuffer)
      then (case png_body inflateSync pngBuffer offset of
              Inl e \<Rightarrow> Some (Inl e)
            | Inr (Finished r) \<Rightarrow> Some (Inr r)
            | Inr (Continue offset') \<Rightarrow> png_scan_fuel n inflateSync pngBuffer offset')
      else Some (Inr None))"

section \<open>The ICC decoder\<close>

text \<open>
  The lookup tables of \<open>_parse\<close>. The operator \<open>in\<close> also finds inherited property
  names of \<open>Object.prototype\<close>; none of them has fewer than seven characters or is a
  value of \<open>valueMap\<close>, so on the strings looked up here it is the test for an own key.
\<close>

definition versionMap :: "(int \<times> jsstring) list" where
  "versionMap =
     [(0x02000000, str ''2.0''), (0x02100000, str ''2.1''), (0x02400000, str ''2.4''),
      (0x04000000, str ''4.0''), (0x04200000, str ''4.2''), (0x04300000, str ''4.3'')]"

definition intentMap :: "(int \<times> jsstring) list" where
  "intentMap =
     [(0, str ''Perceptual''), (1, str ''Relative''), (2, str ''Saturation''), (3, str ''Absolute'')]"

definition valueMap :: "(jsstring \<times> jsstring) list" where
  "valueMap =
     [(str ''scnr'', str ''Scanner''), (str ''mntr'', str ''Monitor''),
      (str ''prtr'', str ''Printer''), (str ''link'', str ''Link''),
      (str ''abst'', str ''Abstract''), (str ''spac'', str ''Space''),
      (str ''nmcl'', str ''Named color''),
      (str ''appl'', str ''Apple''), (str ''adbe'', str ''Adobe''),
      (str ''msft'', str ''Microsoft''), (str ''sunw'', str ''Sun Microsystems''),
      (str ''sgi'', str ''Silicon Graphics''), (str ''tgnt'', str ''Taligent'')]"

definition tagMap :: "(jsstring \<times> string) list" where
  "tagMap =
     [(str ''desc'', ''description''), (str ''cprt'', ''copyright''),
      (str ''dmdd'', ''deviceModelDescription''),
      (str ''vued'', ''viewingConditionsDescription'')]"

definition getContentAtOffsetAsString :: "buffer \<Rightarrow> int \<Rightarrow> jsstring" where
  "getContentAtOffsetAsString buffer offset =
     (let v = trim (utf8_toString (slice buffer offset (offset + 4)))
      in case map_of valueMap (toLowerCase v) of Some name \<Rightarrow> name | None \<Rightarrow> v)"

definition hasContentAtOffset :: "buffer \<Rightarrow> int \<Rightarrow> js_error + bool" where
  "hasContentAtOffset buffer offset =
     (case readUInt32BE buffer offset of Inl e \<Rightarrow> Inl e | Inr v \<Rightarrow> Inr (v \<noteq> 0))"

text \<open>
  The loop of \<open>readStringUTF16BE\<close> steps through \<open>data\<close> two bytes at a time. At an
  odd length the last \<open>data[i + 1]\<close> is \<open>undefined\<close>, the sum is \<open>NaN\<close> and
  \<open>String.fromCharCode(NaN)\<close> is U+0000. The sum of two bytes is below \<open>2^16\<close>.
\<close>

fun utf16be_units :: "buffer \<Rightarrow> jsstring" where
  "utf16be_units [] = []"
| "utf16be_units [x] = [0]"
| "utf16be_units (x # y # data) = (unat x * 256 + unat y) # utf16be_units data"

definition readStringUTF16BE :: "buffer \<Rightarrow> int \<Rightarrow> int \<Rightarrow> jsstring" where
  "readStringUTF16BE buffer start stop = utf16be_units (slice buffer start stop)"

definition invalid :: "jsstring \<Rightarrow> js_error" where
  "invalid reason = Error (str ''Invalid ICC profile: '' @ reason)"

text \<open>
  The attribute record is an object with string keys. \<open>versionMap[...]\<close> and
  \<open>intentMap[...]\<close> store \<open>undefined\<close> for a value outside the table.
\<close>

datatype jsval = Undefined | Str jsstring

type_synonym profile = "string \<rightharpoonup> jsval"

definition table_get :: "(int \<times> jsstring) list \<Rightarrow> int \<Rightarrow> jsval" where
  "table_get t k = (case map_of t k of None \<Rightarrow> Undefined | Some s \<Rightarrow> Str s)"

definition fourByteAttrs :: "(int \<times> string) list" where
  "fourByteAttrs =
     [(4, ''cmm''), (12, ''deviceClass''), (16, ''colorSpace''), (20, ''connectionSpace''),
      (40, ''platform''), (48, ''manufacturer''), (52, ''model''), (80, ''creator'')]"

text \<open>The \<open>forEach\<close> of lines 157 to 170.\<close>

fun four_byte_attributes :: "buffer \<Rightarrow> (int \<times> string) list \<Rightarrow> profile \<Rightarrow> js_error + profile" where
  "four_byte_attributes buffer [] profile = Inr profile"
| "four_byte_attributes buffer (attr # attrs) profile =
     (case hasContentAtOffset buffer (fst attr) of
        Inl e \<Rightarrow> Inl e
      | Inr has \<Rightarrow>
          four_byte_attributes buffer attrs
            (if has then profile(snd attr \<mapsto> Str (getContentAtOffsetAsString buffer (fst attr)))
             else profile))"

text \<open>Lines 187 to 197, the \<open>desc\<close> type.\<close>

definition desc_tag :: "buffer \<Rightarrow> jsstring \<Rightarrow> string \<Rightarrow> int \<Rightarrow> int \<Rightarrow> profile \<Rightarrow> js_error + profile" where
  "desc_tag buffer tagSignature key tagOffset tagSize profile =
     (case readUInt32BE buffer (tagOffset + 8) of
        Inl e \<Rightarrow> Inl e
      | Inr tagValueSize \<Rightarrow>
          if tagValueSize > tagSize
          then Inl (invalid (str ''description tag value size out of bounds for '' @ tagSignature))
          else Inr (profile(key \<mapsto>
                 Str (utf8_toString (slice buffer (tagOffset + 12) (tagOffset + tagValueSize + 11))))))"

text \<open>Lines 199 to 203, the \<open>text\<close> type.\<close>

definition text_tag :: "buffer \<Rightarrow> string \<Rightarrow> int \<Rightarrow> int \<Rightarrow> profile \<Rightarrow> profile" where
  "text_tag buffer key tagOffset tagSize profile =
     profile(key \<mapsto> Str (utf8_toString (slice buffer (tagOffset + 8) (tagOffset + tagSize - 7))))"

text \<open>Lines 204 to 227, the \<open>mluc\<close> type.\<close>

definition mluc_tag :: "buffer \<Rightarrow> jsstring \<Rightarrow> string \<Rightarrow> int \<Rightarrow> profile \<Rightarrow> js_error + profile" where
  "mluc_tag buffer tagSignature key tagOffset profile =
     (case readUInt32BE buffer (tagOffset + 8) of
        Inl e \<Rightarrow> Inl e
      | Inr numberOfNames \<Rightarrow>
          (case readUInt32BE buffer (tagOffset + 12) of
             Inl e \<Rightarrow> Inl e
           | Inr nameRecordSize \<Rightarrow>
               if nameRecordSize \<noteq> 12
               then Inl (invalid (str ''mluc name record size must be 12 for tag '' @ tagSignature))
               else if numberOfNames > 0
               then (case readUInt32BE buffer (tagOffset + 20) of
                       Inl e \<Rightarrow> Inl e
                     | Inr nameLength \<Rightarrow>
                         (case readUInt32BE buffer (tagOffset + 24) of
                            Inl e \<Rightarrow> Inl e
                          | Inr nameOffset \<Rightarrow>
                              (let nameStart = tagOffset + nameOffset;
                                   nameStop = nameStart + nameLength
                               in Inr (profile(key \<mapsto>
                                         Str (readStringUTF16BE buffer nameStart nameStop))))))
               else Inr profile))"

text \<open>One iteration of the tag loop (lines 175 to 229), for the entry at \<open>tagHeaderOffset\<close>.\<close>

definition tag_entry :: "buffer \<Rightarrow> int \<Rightarrow> profile \<Rightarrow> js_error + profile" where
  "tag_entry buffer tagHeaderOffset profile =
     (let tagSignature = getContentAtOffsetAsString buffer tagHeaderOffset
      in case map_of tagMap tagSignature of
           None \<Rightarrow> Inr profile
         | Some key \<Rightarrow>
             (case readUInt32BE buffer (tagHeaderOffset + 4) of
                Inl e \<Rightarrow> Inl e
              | Inr tagOffset \<Rightarrow>
                  (case readUInt32BE buffer (tagHeaderOffset + 8) of
                     Inl e \<Rightarrow> Inl e
                   | Inr tagSize \<Rightarrow>
                       if tagOffset > int (length buffer)
                       then Inl (invalid (str ''tag offset out of bounds''))
                       else
                         (let tagType = getContentAtOffsetAsString buffer tagOffset
                          in case (if tagType = str ''desc''
                                   then desc_tag buffer tagSignature key tagOffset tagSize profile
                                   else Inr profile) of
                               Inl e \<Rightarrow> Inl e
                             | Inr profile1 \<Rightarrow>
                                 (let profile2 =
                                        (if tagType = str ''text''
                                         then text_tag buffer key tagOffset tagSize profile1
                                         else profile1)
                                  in if tagType = str ''mluc''
                                     then mluc_tag buffer tagSignature key tagOffset profile2
                                     else Inr profile2)))))"

text \<open>
  The tag loop runs \<open>tagCount\<close> times; the first argument counts the iterations that
  remain.
\<close>

fun tag_walk :: "nat \<Rightarrow> buffer \<Rightarrow> int \<Rightarrow> profile \<Rightarrow> js_error + profile" where
  "tag_walk 0 buffer tagHeaderOffset profile = Inr profile"
| "tag_walk (Suc n) buffer tagHeaderOffset profile =
     (case tag_entry buffer tagHeaderOffset profile of
        Inl e \<Rightarrow> Inl e
      | Inr profile' \<Rightarrow> tag_walk n buffer (tagHeaderOffset + 12) profile')"

definition parse :: "buffer \<Rightarrow> js_error + profile" where
  "parse buffer =
     (case readUInt32BE buffer 0 of
        Inl e \<Rightarrow> Inl e
      | Inr size' \<Rightarrow>
          if size' \<noteq> int (length buffer) then Inl (invalid (str ''length mismatch''))
          else if utf8_toString (slice buffer 36 40) \<noteq> str ''acsp''
          then Inl (invalid (str ''missing signature''))
          else
            (case readUInt32BE buffer 8 of
               Inl e \<Rightarrow> Inl e
             | Inr version \<Rightarrow>
                 (case readUInt32BE buffer 64 of
                    Inl e \<Rightarrow> Inl e
                  | Inr intent \<Rightarrow>
                      (case four_byte_attributes buffer fourByteAttrs
                              [''version'' \<mapsto> table_get versionMap version,
                               ''intent'' \<mapsto> table_get intentMap intent] of
                         Inl e \<Rightarrow> Inl e
                       | Inr profile \<Rightarrow>
                           (case readUInt32BE buffer 128 of
                              Inl e \<Rightarrow> Inl e
                            | Inr tagCount \<Rightarrow> tag_walk (nat tagCount) buffer 132 profile)))))"

section \<open>Container framing\<close>

text \<open>
  A JPEG file is the start-of-image marker, a sequence of marker segments and what
  follows the last of them: nothing, the end-of-image marker, or the entropy-coded data
  of a scan with the markers behind it. A segment is a marker \<open>0xFF code\<close>, a 2-byte
  big-endian length that counts itself and the payload, and the payload.
\<close>

datatype segment = Segment (marker_code: byte) (payload: buffer)

definition be16 :: "nat \<Rightarrow> buffer" where
  "be16 n = [of_nat (n div 256), of_nat (n mod 256)]"

definition encode_segment :: "segment \<Rightarrow> buffer" where
  "encode_segment s = [0xFF, marker_code s] @ be16 (length (payload s) + 2) @ payload s"

definition jpeg_file :: "segment list \<Rightarrow> buffer \<Rightarrow> buffer" where
  "jpeg_file segs rest = [0xFF, 0xD8] @ concat (map encode_segment segs) @ rest"

text \<open>
  The byte pair \<open>FF E2\<close> somewhere in a byte sequence. In entropy-coded data a byte
  \<open>FF\<close> is followed by \<open>00\<close> or by a restart marker, so the pair does not occur.
\<close>

fun has_app2_marker :: "buffer \<Rightarrow> bool" where
  "has_app2_marker (a # b # bs) = ((a = 0xFF \<and> b = 0xE2) \<or> has_app2_marker (b # bs))"
| "has_app2_marker bs = False"

text \<open>
  The scan reads the signature of an APP2 segment with the \<open>'ascii'\<close> decoding, which
  clears bit 7 of every byte. So a segment carries a profile fragment for the scan when
  the first eleven bytes of its payload are \<open>ICC_PROFILE\<close> up to bit 7; the fragment
  is the payload after its 14-byte header. A payload that starts with the literal bytes
  is one of them.
\<close>

definition is_icc_segment :: "segment \<Rightarrow> bool" where
  "is_icc_segment s =
     (marker_code s = 0xE2 \<and> startsWith (ascii_decode (payload s)) (str ''ICC_PROFILE''))"

definition icc_fragments :: "segment list \<Rightarrow> buffer list" where
  "icc_fragments segs = map (\<lambda>s. drop 14 (payload s)) (filter is_icc_segment segs)"

text \<open>
  A PNG file is the 8-byte signature and a sequence of chunks: a 4-byte big-endian length
  of the data, a 4-byte type, the data and a 4-byte CRC.
\<close>

datatype chunk = Chunk (chunk_type: buffer) (chunk_data: buffer) (chunk_crc: buffer)

definition be32 :: "nat \<Rightarrow> buffer" where
  "be32 n = [of_nat (n div 16777216), of_nat (n div 65536 mod 256),
             of_nat (n div 256 mod 256), of_nat (n mod 256)]"

definition encode_chunk :: "chunk \<Rightarrow> buffer" where
  "encode_chunk c = be32 (length (chunk_data c)) @ chunk_type c @ chunk_data c @ chunk_crc c"

definition wf_chunk :: "chunk \<Rightarrow> bool" where
  "wf_chunk c =
     (length (chunk_type c) = 4 \<and> length (chunk_crc c) = 4 \<and> length (chunk_data c) < 2 ^ 32)"

section \<open>Example inputs\<close>

text \<open>
  A JPEG buffer of 22 bytes: the start-of-image marker and one APP2 segment with the
  \<open>ICC_PROFILE\<close> header, whose length field says 255, followed by two bytes of data.
\<close>

definition jpeg_overrun :: buffer where
  "jpeg_overrun =
     [0xFF, 0xD8, 0xFF, 0xE2, 0x00, 0xFF,
      0x49, 0x43, 0x43, 0x5F, 0x50, 0x52, 0x4F, 0x46, 0x49, 0x4C, 0x45, 0, 1, 1,
      0xAA, 0xBB]"

text \<open>
  A JPEG buffer of 10 bytes: the start-of-image marker, an APP0 segment with length field
  2, and four more bytes.
\<close>

definition jpeg_short :: buffer where
  "jpeg_short = [0xFF, 0xD8, 0xFF, 0xE0, 0x00, 0x02, 0xFF, 0xD9, 0x00, 0x00]"

text \<open>
  A PNG buffer of 20 bytes: the signature and an empty \<open>IDAT\<close> chunk. And one of
  9 bytes: the signature and the first byte of a chunk header.
\<close>

definition png_signature :: buffer where
  "png_signature = [0x89, 0x50, 0x4E, 0x47, 0x0D, 0x0A, 0x1A, 0x0A]"

definition png_one_chunk :: buffer where
  "png_one_chunk = png_signature @ [0, 0, 0, 0, 0x49, 0x44, 0x41, 0x54, 1, 2, 3, 4]"

definition png_truncated :: buffer where
  "png_truncated = png_signature @ [0]"

text \<open>A stand-in for the decompressor in examples: it returns its input.\<close>

definition inflate_stub :: inflater where
  "inflate_stub b = Inr b"

text \<open>
  Three segments: an APP0 segment, and two APP2 segments with the \<open>ICC_PROFILE\<close>
  header that carry the bytes \<open>AA BB\<close> and \<open>CC\<close>.
\<close>

definition jpeg_two_fragments :: "segment list" where
  "jpeg_two_fragments =
     [Segment 0xE0 [1, 2],
      Segment 0xE2 [0x49, 0x43, 0x43, 0x5F, 0x50, 0x52, 0x4F, 0x46, 0x49, 0x4C, 0x45, 0, 1, 2,
                    0xAA, 0xBB],
      Segment 0xE2 [0x49, 0x43, 0x43, 0x5F, 0x50, 0x52, 0x4F, 0x46, 0x49, 0x4C, 0x45, 0, 2, 2,
                    0xCC]]"

text \<open>
  Two APP2 segments: one whose payload begins with the literal \<open>ICC_PROFILE\<close> and
  carries \<open>11 22\<close>, and one whose payload begins with the same bytes with bit 7 set and
  carries \<open>AA BB\<close>. And a JPEG buffer in which a fill byte \<open>FF\<close> precedes the marker
  of an APP2 \<open>ICC_PROFILE\<close> segment that carries \<open>AA BB\<close>.
\<close>

definition jpeg_masked :: "segment list" where
  "jpeg_masked =
     [Segment 0xE2 [0x49, 0x43, 0x43, 0x5F, 0x50, 0x52, 0x4F, 0x46, 0x49, 0x4C, 0x45, 0, 1, 1,
                    0x11, 0x22],
      Segment 0xE2 [0xC9, 0xC3, 0xC3, 0xDF, 0xD0, 0xD2, 0xCF, 0xC6, 0xC9, 0xCC, 0xC5, 0, 1, 1,
                    0xAA, 0xBB]]"

definition jpeg_fill :: buffer where
  "jpeg_fill =
     [0xFF, 0xD8, 0xFF, 0xFF, 0xE2, 0x00, 0x12,
      0x49, 0x43, 0x43, 0x5F, 0x50, 0x52, 0x4F, 0x46, 0x49, 0x4C, 0x45, 0, 1, 2,
      0xAA, 0xBB, 0xFF, 0xD9]"

text \<open>
  The header of a scan with one component, and what follows it in a file: six bytes of
  entropy-coded data, among them a stuffed \<open>FF 00\<close>, and the end-of-image marker.
\<close>

definition jpeg_sos :: segment where
  "jpeg_sos = Segment 0xDA [1, 1, 0, 0, 0x3F, 0]"

definition jpeg_scan_data :: buffer where
  "jpeg_scan_data = [0x12, 0xE2, 0xFF, 0x00, 0x34, 0x56, 0xFF, 0xD9]"

text \<open>
  Chunks of a PNG file with a profile: a header chunk, an \<open>iCCP\<close> chunk with the
  name \<open>sRGB\<close>, compression method 0 and three payload bytes, and the end chunk. And
  a decompressor that always fails.
\<close>

definition example_ihdr :: chunk where
  "example_ihdr = Chunk [0x49, 0x48, 0x44, 0x52] [1, 2, 3] [0, 0, 0, 0]"

definition example_iccp :: chunk where
  "example_iccp =
     Chunk [0x69, 0x43, 0x43, 0x50] [0x73, 0x52, 0x47, 0x42, 0, 0, 0x78, 0x9C, 1] [9, 9, 9, 9]"

definition example_iend :: chunk where
  "example_iend = Chunk [0x49, 0x45, 0x4E, 0x44] [] [0xAE, 0x42, 0x60, 0x82]"

definition inflate_fail :: inflater where
  "inflate_fail b = Inl (str ''incorrect header check'')"

text \<open>The bytes of a string whose characters are below U+0100.\<close>

definition ascii_bytes :: "jsstring \<Rightarrow> buffer" where
  "ascii_bytes s = map of_nat s"



definition desc_example :: buffer where
  "desc_example =
     [0x64, 0x65, 0x73, 0x63,   0, 0, 0, 12,   0, 0, 0, 100,
      0x64, 0x65, 0x73, 0x63,   0, 0, 0, 0,   0, 0, 0, 50,   0x48, 0x69]"

text \<open>
  A buffer of 84 bytes that is consistent as far as it goes: its first four bytes give its
  length, the signature \<open>acsp\<close> stands at offset 36 and every other byte is zero.
\<close>

definition short_profile :: buffer where
  "short_profile =
     [0, 0, 0, 84,   0, 0, 0, 0,   0, 0, 0, 0,   0, 0, 0, 0,
      0, 0, 0, 0,   0, 0, 0, 0,   0, 0, 0, 0,   0, 0, 0, 0,
      0, 0, 0, 0,   0x61, 0x63, 0x73, 0x70,   0, 0, 0, 0,   0, 0, 0, 0,
      0, 0, 0, 0,   0, 0, 0, 0,   0, 0, 0, 0,   0, 0, 0, 0,
      0, 0, 0, 0,   0, 0, 0, 0,   0, 0, 0, 0,   0, 0, 0, 0,
      0, 0, 0, 0]"

text \<open>ASCII lower case on bytes.\<close>

definition ascii_lower_byte :: "byte \<Rightarrow> byte" where
  "ascii_lower_byte b = (if 0x41 \<le> b \<and> b \<le> 0x5A then b + 0x20 else b)"

text \<open>
  A profile of 132 bytes with no tags: version 4.3, the bytes \<open>ab\<close> and two null
  bytes as \<open>cmm\<close>, \<open>MnTr\<close> as device class, a space and \<open>abc\<close> as
  \<open>model\<close>; the other four-byte codes are zero.
\<close>

definition example_profile :: buffer where
  "example_profile =
     [0, 0, 0, 132,   0x61, 0x62, 0, 0,   4, 0x30, 0, 0,   0x4D, 0x6E, 0x54, 0x72,
      0, 0, 0, 0,   0, 0, 0, 0,   0, 0, 0, 0,   0, 0, 0, 0,
      0, 0, 0, 0,   0x61, 0x63, 0x73, 0x70,   0, 0, 0, 0,   0, 0, 0, 0,
      0, 0, 0, 0,   0x20, 0x61, 0x62, 0x63,   0, 0, 0, 0,   0, 0, 0, 0,
      0, 0, 0, 1,   0, 0, 0, 0,   0, 0, 0, 0,   0, 0, 0, 0,
      0, 0, 0, 0,   0, 0, 0, 0,   0, 0, 0, 0,   0, 0, 0, 0,
      0, 0, 0, 0,   0, 0, 0, 0,   0, 0, 0, 0,   0, 0, 0, 0,
      0, 0, 0, 0,   0, 0, 0, 0,   0, 0, 0, 0,   0, 0, 0, 0,
      0, 0, 0, 0]"

section \<open>Properties of the container scans\<close>

subsection \<open>Termination\<close>

lemma jpeg_fuel_enough:
  "nat ((int (length jpeg) - 4 - pos + 1) div 2) \<le> n \<Longrightarrow>
   jpeg_scan_fuel n jpeg pos buffers = Some (jpeg_scan jpeg pos buffers)"
proof (induction n arbitrary: pos buffers)
  case 0
  then have "\<not> pos < int (length jpeg) - 4" by linarith
  then show ?case by (simp add: jpeg_scan.simps)
next
  case (Suc n)
  show ?case
  proof (cases "pos < int (length jpeg) - 4")
    case False
    then show ?thesis by (simp add: jpeg_scan.simps)
  next
    case True
    show ?thesis
    proof (cases "jpeg_body jpeg pos buffers")
      case (Inl e)
      with True show ?thesis by (simp add: jpeg_scan.simps [of jpeg pos])
    next
      case (Inr st)
      obtain pos' buffers' where st: "st = (pos', buffers')" by (cases st)
      from Inr st have "pos + 2 \<le> pos'" by (auto dest: jpeg_body_advances)
      with Suc.prems have "nat ((int (length jpeg) - 4 - pos' + 1) div 2) \<le> n" by linarith
      then have "jpeg_scan_fuel n jpeg pos' buffers' = Some (jpeg_scan jpeg pos' buffers')"
        by (rule Suc.IH)
      with True Inr st show ?thesis by (simp add: jpeg_scan.simps [of jpeg pos])
    qed
  qed
qed

lemma png_fuel_enough:
  "nat ((int (length png) - offset + 11) div 12) \<le> n \<Longrightarrow>
   png_scan_fuel n inflateSync png offset = Some (png_scan inflateSync png offset)"
proof (induction n arbitrary: offset)
  case 0
  then have "\<not> offset < int (length png)" by linarith
  then show ?case by (simp add: png_scan.simps)
next
  case (Suc n)
  show ?case
  proof (cases "offset < int (length png)")
    case False
    then show ?thesis by (simp add: png_scan.simps)
  next
    case True
    show ?thesis
    proof (cases "png_body inflateSync png offset")
      case (Inl e)
      with True show ?thesis by (simp add: png_scan.simps [of _ png offset])
    next
      case (Inr st)
      show ?thesis
      proof (cases st)
        case (Finished r)
        with True Inr show ?thesis by (simp add: png_scan.simps [of _ png offset])
      next
        case (Continue offset')
        with Inr have "offset + 12 \<le> offset'" by (auto dest: png_body_advances)
        with Suc.prems have "nat ((int (length png) - offset' + 11) div 12) \<le> n" by linarith
        then have "png_scan_fuel n inflateSync png offset' = Some (png_scan inflateSync png offset')"
          by (rule Suc.IH)
        with True Inr Continue show ?thesis by (simp add: png_scan.simps [of _ png offset])
      qed
    qed
  qed
qed

lemma readUInt16BE_bound: "readUInt16BE buf off = Inr v \<Longrightarrow> v < 65536"
proof -
  have b: "uint (x :: byte) < 256" for x using uint_bounded [of x] by simp
  assume "readUInt16BE buf off = Inr v"
  then show ?thesis
    using b [of "buf ! nat off"] b [of "buf ! nat (off + 1)"]
    by (auto simp: readUInt16BE_def split: if_splits)
qed

text \<open>
  C10. Both container scans terminate on every buffer. An iteration of the JPEG scan that
  goes on moves the position forward by the 16-bit length field plus 2, so by at least 2
  (and at most 65537); an iteration of the PNG scan that goes on moves the offset forward
  by at least 12. Hence the JPEG loop started at position 2 finishes within
  \<open>length div 2\<close> iterations and the PNG loop started at offset 8 within
  \<open>length div 12 + 1\<close> iterations: run with that bound, each loop returns, and returns
  the result of the unbounded loop.
\<close>

theorem scans_terminate:
  "(jpeg_body jpeg pos buffers = Inr (pos', buffers') \<longrightarrow> pos + 2 \<le> pos' \<and> pos' < pos + 65538)
   \<and> (png_body inflateSync png offset = Inr (Continue offset') \<longrightarrow> offset + 12 \<le> offset')
   \<and> jpeg_scan_fuel (length jpeg div 2) jpeg 2 [] = Some (jpeg_scan jpeg 2 [])
   \<and> png_scan_fuel (length png div 12 + 1) inflateSync png 8 = Some (png_scan inflateSync png 8)"
proof -
  have "jpeg_body jpeg pos buffers = Inr (pos', buffers') \<Longrightarrow> pos' < pos + 65538"
    by (auto simp: jpeg_body_def split: sum.splits dest: readUInt16BE_bound)
  moreover have "jpeg_scan_fuel (length jpeg div 2) jpeg 2 [] = Some (jpeg_scan jpeg 2 [])"
    by (rule jpeg_fuel_enough) linarith
  moreover have "png_scan_fuel (length png div 12 + 1) inflateSync png 8 = Some (png_scan inflateSync png 8)"
    by (rule png_fuel_enough) linarith
  ultimately show ?thesis
    by (auto dest: jpeg_body_advances png_body_advances)
qed

theorem scans_terminate_witness:
  "jpeg_body jpeg_overrun 2 [] = Inr (259, [[0xAA, 0xBB]]) \<and> (2::int) + 2 \<le> 259 \<and> (259::int) < 2 + 65538
   \<and> png_body inflate_stub png_one_chunk 8 = Inr (Continue 20) \<and> (8::int) + 12 \<le> 20
   \<and> jpeg_scan_fuel 11 jpeg_overrun 2 [] = Some (jpeg_scan jpeg_overrun 2 [])
   \<and> png_scan_fuel 2 inflate_stub png_one_chunk 8 = Some (png_scan inflate_stub png_one_chunk 8)"
proof -
  have j: "jpeg_body jpeg_overrun 2 [] = Inr (259, [[0xAA, 0xBB]])"
    by (simp add: jpeg_overrun_def jpeg_body_def readUInt16BE_def toString_ascii_def
        startsWith_def str_def ascii_decode_def slice_def adjustOffset_def)
  have p: "png_body inflate_stub png_one_chunk 8 = Inr (Continue 20)"
    by (simp add: png_one_chunk_def png_signature_def png_body_def readUInt32BE_def
        str_def ascii_decode_def slice_def adjustOffset_def)
  have lj: "length jpeg_overrun div 2 = 11" by (simp add: jpeg_overrun_def)
  have lp: "length png_one_chunk div 12 + 1 = 2"
    by (simp add: png_one_chunk_def png_signature_def)
  show ?thesis
    using scans_terminate [of jpeg_overrun 2 "[]" 259 "[[0xAA, 0xBB]]" inflate_stub
        png_one_chunk 8 20, unfolded lj lp] j p
    by simp
qed

subsection \<open>The JPEG marker scan\<close>

lemma slice_nonneg:
  "0 \<le> a \<Longrightarrow> 0 \<le> b \<Longrightarrow> slice xs a b = drop (nat a) (take (nat b) xs)"
  by (auto simp: slice_def adjustOffset_def Let_def drop_take min_def nat_diff_distrib')

lemma toString_ascii_nonneg:
  "0 \<le> a \<Longrightarrow> toString_ascii xs a b = ascii_decode (drop (nat a) (take (nat b) xs))"
  by (auto simp: toString_ascii_def Let_def drop_take min_def max_def ascii_decode_def
      nat_diff_distrib')

lemma startsWith_ICC_length:
  assumes "startsWith (ascii_decode xs) (str ''ICC_PROFILE'')"
  shows "11 \<le> length xs"
proof -
  from assms
  have "take (length (str ''ICC_PROFILE'')) (ascii_decode xs) = str ''ICC_PROFILE''"
    by (simp only: startsWith_def)
  then have "length (take (length (str ''ICC_PROFILE'')) (ascii_decode xs))
               = length (str ''ICC_PROFILE'')"
    by (rule arg_cong)
  then show ?thesis by (simp add: str_def ascii_decode_def)
qed

lemma startsWith_ICC_take:
  "startsWith (ascii_decode (take 14 xs)) (str ''ICC_PROFILE'')
     = startsWith (ascii_decode xs) (str ''ICC_PROFILE'')"
  by (simp add: startsWith_def str_def ascii_decode_def take_map)

lemma jpeg_body_in_range:
  assumes "0 \<le> pos" and "pos < int (length jpeg) - 4"
  shows "jpeg_body jpeg pos buffers =
           Inr (pos + (uint (jpeg ! nat (pos + 2)) * 256 + uint (jpeg ! nat (pos + 3))) + 2,
                if uint (jpeg ! nat pos) * 256 + uint (jpeg ! nat (pos + 1)) = 0xffe2
                     \<and> startsWith (toString_ascii jpeg (pos + 4) (pos + 18)) (str ''ICC_PROFILE'')
                then buffers @ [slice jpeg (pos + 18)
                       (pos + (uint (jpeg ! nat (pos + 2)) * 256 + uint (jpeg ! nat (pos + 3))) + 2)]
                else buffers)"
proof -
  have "pos + 2 + 1 = pos + 3" by simp
  with assms show ?thesis
    by (simp add: jpeg_body_def readUInt16BE_def add.commute)
qed

lemma jpeg_scan_stops_late:
  "jpeg_scan jpeg pos buffers = Inr (p, bs) \<Longrightarrow> int (length jpeg) - p \<le> 4"
proof (induction jpeg pos buffers rule: jpeg_scan.induct)
  case (1 jpeg pos buffers)
  show ?case
  proof (cases "pos < int (length jpeg) - 4")
    case False
    with "1.prems" show ?thesis by (simp add: jpeg_scan.simps [of jpeg pos])
  next
    case True
    with "1.prems" obtain pos' buffers'
      where b: "jpeg_body jpeg pos buffers = Inr (pos', buffers')"
        and s: "jpeg_scan jpeg pos' buffers' = Inr (p, bs)"
      by (auto simp: jpeg_scan.simps [of jpeg pos] split: sum.splits)
    from "1.IH" [OF True b refl s] show ?thesis .
  qed
qed

lemma jpeg_scan_never_fails:
  "0 \<le> pos \<Longrightarrow> \<exists>p bs. jpeg_scan jpeg pos buffers = Inr (p, bs)"
proof (induction jpeg pos buffers rule: jpeg_scan.induct)
  case (1 jpeg pos buffers)
  show ?case
  proof (cases "pos < int (length jpeg) - 4")
    case False
    then show ?thesis by (simp add: jpeg_scan.simps [of jpeg pos])
  next
    case True
    obtain pos' buffers' where b: "jpeg_body jpeg pos buffers = Inr (pos', buffers')"
      using jpeg_body_in_range [OF "1.prems" True] by blast
    then have "0 \<le> pos'" using "1.prems" by (auto dest: jpeg_body_advances)
    from "1.IH" [OF True b refl this] True b show ?thesis
      by (simp add: jpeg_scan.simps [of jpeg pos])
  qed
qed

text \<open>
  C4, as amended. An iteration of the JPEG marker scan at a position inside the buffer
  moves the position forward by exactly the segment's 2-byte big-endian length field plus
  2 (the two marker bytes come before the length field). The scan stops exactly when at
  most 4 bytes remain before the buffer end: with 4 bytes or fewer left it returns at once,
  with more than 4 it goes on, and the position at which the scan started at 2 returns has
  at most 4 bytes left.
\<close>

theorem jpeg_scan_advance_and_stop:
  "(0 \<le> pos \<and> pos < int (length jpeg) - 4 \<longrightarrow>
      (\<exists>buffers'. jpeg_body jpeg pos buffers =
           Inr (pos + (uint (jpeg ! nat (pos + 2)) * 256 + uint (jpeg ! nat (pos + 3))) + 2, buffers')))
   \<and> (int (length jpeg) - pos \<le> 4 \<longrightarrow> jpeg_scan jpeg pos buffers = Inr (pos, buffers))
   \<and> (4 < int (length jpeg) - pos \<longrightarrow> jpeg_scan jpeg pos buffers \<noteq> Inr (pos, buffers))
   \<and> (\<forall>p bs. jpeg_scan jpeg 2 [] = Inr (p, bs) \<longrightarrow> int (length jpeg) - p \<le> 4)"
proof -
  have "jpeg_scan jpeg pos buffers \<noteq> Inr (pos, buffers)" if "4 < int (length jpeg) - pos"
    using jpeg_scan_stops_late [of jpeg pos buffers pos buffers] that by auto
  then show ?thesis
    by (auto simp: jpeg_body_in_range jpeg_scan.simps [of jpeg pos] dest: jpeg_scan_stops_late)
qed

text \<open>
  C4 as stated fails on \<open>jpeg_short\<close>: the length field at offset 4 is 2, yet the
  iteration at position 2 moves to position 6, not to 4; and the scan stops at position 6
  although 4 bytes, not fewer than 4, remain.
\<close>

theorem jpeg_scan_advance_counterexample:
  "readUInt16BE jpeg_short 4 = Inr 2 \<and> jpeg_body jpeg_short 2 [] = Inr (6, [])
   \<and> jpeg_scan jpeg_short 2 [] = Inr (6, []) \<and> int (length jpeg_short) - 6 = 4"
  by (simp add: jpeg_short_def jpeg_scan.simps jpeg_body_def readUInt16BE_def)

theorem jpeg_scan_advance_and_stop_witness:
  "jpeg_body jpeg_short 2 [] = Inr (6, []) \<and> jpeg_scan jpeg_short 6 [] = Inr (6, [])
   \<and> jpeg_scan jpeg_short 2 [] \<noteq> Inr (2, []) \<and> jpeg_scan jpeg_short 2 [] = Inr (6, [])"
proof -
  have l: "int (length jpeg_short) = 10" by (simp add: jpeg_short_def)
  have b: "uint (jpeg_short ! nat (2 + 2)) * 256 + uint (jpeg_short ! nat (2 + 3)) = 2"
    by (simp add: jpeg_short_def)
  have s: "jpeg_scan jpeg_short 2 [] = Inr (6, [])"
    by (simp add: jpeg_short_def jpeg_scan.simps jpeg_body_def readUInt16BE_def)
  have bd: "jpeg_body jpeg_short 2 [] = Inr (6, [])"
    by (simp add: jpeg_short_def jpeg_body_def readUInt16BE_def)
  show ?thesis
    using jpeg_scan_advance_and_stop [of 2 jpeg_short "[]"]
      jpeg_scan_advance_and_stop [of 6 jpeg_short "[]"] l b s bd
    by auto
qed

text \<open>
  C2, as amended. \<open>extractFromJPEG\<close> raises no error on any buffer. When the only
  segment is an APP2 \<open>ICC_PROFILE\<close> segment whose length field reaches past the end
  of the buffer, the fragment is cut off at the buffer end: the result is what is left of
  the payload after its 14-byte header.
\<close>

theorem extractFromJPEG_never_fails:
  "(\<exists>r. extractFromJPEG jpeg = Inr r)
   \<and> (startsWith (ascii_decode data) (str ''ICC_PROFILE'')
        \<and> int (length data) + 2 < uint hi * 256 + uint lo
      \<longrightarrow> extractFromJPEG ([0xFF, 0xD8, 0xFF, 0xE2, hi, lo] @ data) = Inr (Some (drop 14 data)))"
proof -
  have a: "\<exists>r. extractFromJPEG jpeg = Inr r"
    using jpeg_scan_never_fails [of 2 jpeg "[]"] by (auto simp: extractFromJPEG_def)
  have b: "extractFromJPEG ([0xFF, 0xD8, 0xFF, 0xE2, hi, lo] @ data) = Inr (Some (drop 14 data))"
    if icc: "startsWith (ascii_decode data) (str ''ICC_PROFILE'')"
      and over: "int (length data) + 2 < uint hi * 256 + uint lo"
  proof -
    let ?jpeg = "[0xFF, 0xD8, 0xFF, 0xE2, hi, lo] @ data"
    let ?len = "uint hi * 256 + uint lo"
    from icc have len: "11 \<le> length data" by (rule startsWith_ICC_length)
    have sig: "startsWith (toString_ascii ?jpeg (2 + 4) (2 + 18)) (str ''ICC_PROFILE'')"
      using icc by (simp add: toString_ascii_nonneg startsWith_ICC_take)
    have "length ?jpeg \<le> nat (2 + ?len + 2)" using over by simp
    then have "take (nat (2 + ?len + 2)) ?jpeg = ?jpeg" by (rule take_all)
    then have sl: "slice ?jpeg (2 + 18) (2 + ?len + 2) = drop 14 data"
      by (simp add: slice_nonneg)
    have body: "jpeg_body ?jpeg 2 [] = Inr (2 + ?len + 2, [drop 14 data])"
      using len sig sl by (simp add: jpeg_body_def readUInt16BE_def)
    have stop: "jpeg_scan ?jpeg (2 + ?len + 2) [drop 14 data]
                  = Inr (2 + ?len + 2, [drop 14 data])"
      using over by (subst jpeg_scan.simps) simp
    have "jpeg_scan ?jpeg 2 [] = jpeg_scan ?jpeg (2 + ?len + 2) [drop 14 data]"
      using len body by (subst jpeg_scan.simps) auto
    with stop show ?thesis by (simp add: extractFromJPEG_def)
  qed
  from a b show ?thesis by blast
qed

text \<open>
  C2 as stated fails on \<open>jpeg_overrun\<close>: the length field of its APP2
  \<open>ICC_PROFILE\<close> segment is 255 in a buffer of 22 bytes, and the result is the two
  bytes that are there, not an error.
\<close>

theorem extractFromJPEG_overrun_counterexample:
  "uint (jpeg_overrun ! 4) * 256 + uint (jpeg_overrun ! 5) = 255 \<and> length jpeg_overrun = 22
   \<and> extractFromJPEG jpeg_overrun = Inr (Some [0xAA, 0xBB])"
  by (simp add: extractFromJPEG_def jpeg_overrun_def jpeg_scan.simps jpeg_body_def readUInt16BE_def
      toString_ascii_def startsWith_def str_def ascii_decode_def slice_def adjustOffset_def)

theorem extractFromJPEG_never_fails_witness:
  "(\<exists>r. extractFromJPEG jpeg_overrun = Inr r)
   \<and> startsWith (ascii_decode
         [0x49, 0x43, 0x43, 0x5F, 0x50, 0x52, 0x4F, 0x46, 0x49, 0x4C, 0x45, 0, 1, 1, 0xAA, 0xBB])
         (str ''ICC_PROFILE'')
   \<and> int (length [0x49 :: byte, 0x43, 0x43, 0x5F, 0x50, 0x52, 0x4F, 0x46, 0x49, 0x4C, 0x45,
                    0, 1, 1, 0xAA, 0xBB]) + 2 < uint (0 :: byte) * 256 + uint (0xFF :: byte)
   \<and> extractFromJPEG jpeg_overrun = Inr (Some [0xAA, 0xBB])"
proof -
  have i: "startsWith (ascii_decode
         [0x49, 0x43, 0x43, 0x5F, 0x50, 0x52, 0x4F, 0x46, 0x49, 0x4C, 0x45, 0, 1, 1, 0xAA, 0xBB])
         (str ''ICC_PROFILE'')"
    by (simp add: startsWith_def ascii_decode_def str_def)
  show ?thesis
    using i extractFromJPEG_never_fails [of jpeg_overrun
        "[0x49, 0x43, 0x43, 0x5F, 0x50, 0x52, 0x4F, 0x46, 0x49, 0x4C, 0x45, 0, 1, 1, 0xAA, 0xBB]"
        0 "0xFF"]
    by (simp add: jpeg_overrun_def)
qed

subsection \<open>A PNG buffer that ends inside a chunk header\<close>

text \<open>
  C3. The buffer \<open>png_truncated\<close> is the PNG signature followed by a single byte; it
  has no \<open>iCCP\<close> chunk. The loop guard of line 33 lets the scan in with one byte left,
  the read of the 4-byte chunk length in line 34 leaves the buffer, and the runtime's
  \<open>RangeError\<close> escapes from \<open>extractFromPNG\<close>, whatever the decompressor. The guard
  of the JPEG scan in line 6 keeps the four bytes it reads inside the buffer; the guard of
  the PNG scan does not. On \<open>png_one_chunk\<close>, which ends with a complete chunk, the
  outcome is none.
\<close>

theorem extractFromPNG_truncated_raises:
  "extractFromPNG inflateSync png_truncated = Inl RangeError
   \<and> extractFromPNG inflateSync png_one_chunk = Inr None"
proof -
  have "extractFromPNG inflateSync png_truncated = Inl RangeError"
    by (simp add: extractFromPNG_def png_scan.simps png_body_def readUInt32BE_def
        png_truncated_def png_signature_def)
  moreover have "png_body inflateSync png_one_chunk 8 = Inr (Continue 20)"
    by (simp add: png_one_chunk_def png_signature_def png_body_def readUInt32BE_def
        str_def ascii_decode_def slice_def adjustOffset_def)
  then have "extractFromPNG inflateSync png_one_chunk = Inr None"
    by (simp add: extractFromPNG_def png_scan.simps [of _ _ 8] png_scan.simps [of _ _ 20])
       (simp add: png_one_chunk_def png_signature_def)
  ultimately show ?thesis by simp
qed

subsection \<open>Profile fragments of a JPEG file\<close>

lemma uint_byte_of_nat: "n < 256 \<Longrightarrow> uint (of_nat n :: byte) = int n"
  by (simp add: uint_nat unat_of_nat)

lemma be16_value:
  assumes "n < 65536"
  shows "uint (of_nat (n div 256) :: byte) * 256 + uint (of_nat (n mod 256) :: byte) = int n"
proof -
  from assms have "n < 256 * 256" by simp
  then have d: "n div 256 < 256" by (rule less_mult_imp_div_less)
  have m: "n mod 256 < 256" by simp
  have "n div 256 * 256 + n mod 256 = n" by (rule div_mult_mod_eq)
  then have "int (n div 256 * 256 + n mod 256) = int n" by (rule arg_cong)
  then have "int (n div 256) * 256 + int (n mod 256) = int n"
    by (simp only: of_nat_add of_nat_mult of_nat_numeral)
  then show ?thesis by (simp only: uint_byte_of_nat [OF d] uint_byte_of_nat [OF m])
qed

lemma readUInt16BE_at:
  "readUInt16BE (pfx @ a # b # rest) (int (length pfx)) = Inr (uint a * 256 + uint b)"
  by (simp add: readUInt16BE_def nth_append nat_add_distrib)

lemma icc_window:
  assumes "rest = [] \<or> hd rest = 0xFF"
  shows "startsWith (ascii_decode (take 14 (pl @ rest))) (str ''ICC_PROFILE'')
           = startsWith (ascii_decode pl) (str ''ICC_PROFILE'')"
proof (cases "11 \<le> length pl")
  case True
  then show ?thesis
    by (simp add: startsWith_def str_def ascii_decode_def take_map)
next
  case False
  have r: "\<not> startsWith (ascii_decode pl) (str ''ICC_PROFILE'')"
    using False startsWith_ICC_length by blast
  have "\<not> startsWith (ascii_decode (take 14 (pl @ rest))) (str ''ICC_PROFILE'')"
  proof
    assume a: "startsWith (ascii_decode (take 14 (pl @ rest))) (str ''ICC_PROFILE'')"
    then have a': "startsWith (ascii_decode (pl @ rest)) (str ''ICC_PROFILE'')"
      by (simp only: startsWith_ICC_take)
    then have "11 \<le> length (pl @ rest)" by (rule startsWith_ICC_length)
    with False have "rest \<noteq> []" by auto
    with assms obtain r where rest: "rest = 0xFF # r" by (cases rest) auto
    have l11: "length (str ''ICC_PROFILE'') = 11" by (simp add: str_def)
    from a' have "take (length (str ''ICC_PROFILE'')) (ascii_decode (pl @ rest)) = str ''ICC_PROFILE''"
      by (simp only: startsWith_def)
    then have eq: "take 11 (ascii_decode (pl @ rest)) = str ''ICC_PROFILE''"
      by (simp only: l11)
    from False have "ascii_decode (pl @ rest) ! length pl = 127"
      by (simp add: rest ascii_decode_def nth_append)
    moreover from False have "take 11 (ascii_decode (pl @ rest)) ! length pl
        = ascii_decode (pl @ rest) ! length pl" by simp
    ultimately have "str ''ICC_PROFILE'' ! length pl = 127" using eq by simp
    moreover have "length pl < length (str ''ICC_PROFILE'')" using False by (simp only: l11)
    then have "str ''ICC_PROFILE'' ! length pl \<in> set (str ''ICC_PROFILE'')" by (rule nth_mem)
    moreover have "(127::nat) \<notin> set (str ''ICC_PROFILE'')" by (simp add: str_def)
    ultimately show False by simp
  qed
  with r show ?thesis by simp
qed

lemma jpeg_body_segment:
  assumes len: "length (payload s) \<le> 65533"
    and rest: "rest = [] \<or> hd rest = 0xFF \<or> marker_code s \<noteq> 0xE2"
  shows "jpeg_body (pfx @ encode_segment s @ rest) (int (length pfx)) bufs
           = Inr (int (length (pfx @ encode_segment s)), bufs @ icc_fragments [s])"
proof -
  obtain c pl where s: "s = Segment c pl" by (cases s)
  define h :: byte where "h = of_nat ((length pl + 2) div 256)"
  define l :: byte where "l = of_nat ((length pl + 2) mod 256)"
  let ?buf = "pfx @ 0xFF # c # h # l # pl @ rest"
  have enc: "encode_segment (Segment c pl) = 0xFF # c # h # l # pl"
    by (simp only: encode_segment_def be16_def h_def l_def segment.sel append.simps)
  from len have "length pl + 2 < 65536" by (simp add: s)
  then have "uint h * 256 + uint l = int (length pl + 2)"
    unfolding h_def l_def by (rule be16_value)
  then have lenfield: "uint h * 256 + uint l = int (length pl) + 2" by simp
  have m: "readUInt16BE ?buf (int (length pfx)) = Inr (0xFF00 + uint c)"
    by (simp add: readUInt16BE_at)
  have "readUInt16BE ?buf (int (length pfx) + 2) = Inr (uint h * 256 + uint l)"
    by (simp add: readUInt16BE_def nth_append nat_add_distrib)
  then have lf: "readUInt16BE ?buf (int (length pfx) + 2) = Inr (int (length pl) + 2)"
    by (simp only: lenfield)
  have win: "toString_ascii ?buf (int (length pfx) + 4) (int (length pfx) + 18)
               = ascii_decode (take 14 (pl @ rest))"
    by (simp add: toString_ascii_nonneg nat_add_distrib)
  have sl: "slice ?buf (int (length pfx) + 18) (int (length pfx) + (int (length pl) + 2) + 2)
               = drop 14 pl"
  proof -
    have "take (4 + length pl) ([0xFF, c, h, l] @ pl @ rest) = [0xFF, c, h, l] @ pl"
      by (simp del: append.simps)
    then have "drop 18 (take (4 + length pl) (0xFF # c # h # l # pl @ rest)) = drop 14 pl"
      by simp
    then show ?thesis by (simp add: slice_nonneg nat_add_distrib)
  qed
  have mk: "(0xFF00 + uint c = 0xffe2) = (c = 0xE2)"
  proof -
    have "(uint c = uint (0xE2 :: byte)) = (c = 0xE2)" by (simp only: word_uint_eq_iff)
    then show ?thesis by simp
  qed
  have body: "jpeg_body ?buf (int (length pfx)) bufs
      = Inr (int (length pfx) + (int (length pl) + 2) + 2,
             if 0xFF00 + uint c = 0xffe2
                  \<and> startsWith (ascii_decode (take 14 (pl @ rest))) (str ''ICC_PROFILE'')
             then bufs @ [drop 14 pl] else bufs)"
    by (simp only: jpeg_body_def m lf sum.case win sl)
  have frag: "icc_fragments [Segment c pl]
      = (if c = 0xE2 \<and> startsWith (ascii_decode pl) (str ''ICC_PROFILE'')
         then [drop 14 pl] else [])"
    by (simp add: icc_fragments_def is_icc_segment_def)
  have pos: "int (length (pfx @ encode_segment (Segment c pl)))
      = int (length pfx) + (int (length pl) + 2) + 2"
    by (simp add: enc)
  have buf: "pfx @ encode_segment (Segment c pl) @ rest = ?buf" by (simp add: enc)
  show ?thesis
  proof (cases "c = 0xE2")
    case True
    with rest have "rest = [] \<or> hd rest = 0xFF" by (simp add: s)
    note w = icc_window [OF this]
    from buf show ?thesis
      unfolding s by (simp only: body frag pos mk w) simp
  next
    case False
    with buf show ?thesis
      unfolding s by (simp only: body frag pos mk) simp
  qed
qed

lemma encode_segment_hd: "hd (encode_segment s @ xs) = 0xFF"
  by (simp add: encode_segment_def)

lemma length_encode_segment: "length (encode_segment s) = length (payload s) + 4"
  by (simp add: encode_segment_def be16_def)

lemma u16_app2: "(uint (a :: byte) * 256 + uint (b :: byte) = 0xffe2) = (a = 0xFF \<and> b = 0xE2)"
proof -
  have "uint a < 2 ^ LENGTH(8)" "uint b < 2 ^ LENGTH(8)" by (rule uint_bounded)+
  then have ba: "uint a < 256" and bb: "uint b < 256" by simp_all
  have "0 \<le> uint a" "0 \<le> uint b" by simp_all
  with ba bb have "(uint a * 256 + uint b = 0xffe2) = (uint a = 255 \<and> uint b = 226)"
    by presburger
  also have "\<dots> = (uint a = uint (0xFF :: byte) \<and> uint b = uint (0xE2 :: byte))" by simp
  also have "\<dots> = (a = 0xFF \<and> b = 0xE2)" by (simp only: word_uint_eq_iff)
  finally show ?thesis .
qed

lemma has_app2_marker_nth:
  "\<not> has_app2_marker bs \<Longrightarrow> Suc i < length bs \<Longrightarrow> \<not> (bs ! i = 0xFF \<and> bs ! Suc i = 0xE2)"
proof (induction bs arbitrary: i rule: has_app2_marker.induct)
  case (1 a b bs)
  show ?case
  proof (cases i)
    case 0
    with "1.prems" show ?thesis by simp
  next
    case (Suc j)
    from "1.prems" have "\<not> has_app2_marker (b # bs)" and "Suc j < length (b # bs)"
      using Suc by simp_all
    then have "\<not> ((b # bs) ! j = 0xFF \<and> (b # bs) ! Suc j = 0xE2)" by (rule "1.IH")
    with Suc show ?thesis by simp
  qed
qed simp_all

lemma no_marker_read:
  assumes "\<not> has_app2_marker rest" and "int (length pfx) \<le> pos"
  shows "readUInt16BE (pfx @ rest) pos \<noteq> Inr 0xffe2"
proof
  assume r: "readUInt16BE (pfx @ rest) pos = Inr 0xffe2"
  define i where "i = nat pos - length pfx"
  from r have inb: "pos + 2 \<le> int (length (pfx @ rest))"
    by (auto simp: readUInt16BE_def split: if_splits)
  with assms(2) have i: "Suc i < length rest" and p: "nat pos = length pfx + i"
    and p1: "nat (pos + 1) = length pfx + Suc i"
    by (auto simp: i_def)
  from r inb assms(2) have "uint ((pfx @ rest) ! nat pos) * 256
      + uint ((pfx @ rest) ! nat (pos + 1)) = 0xffe2"
    by (auto simp: readUInt16BE_def split: if_splits)
  then have "uint (rest ! i) * 256 + uint (rest ! Suc i) = 0xffe2"
    by (simp only: p p1 nth_append_length_plus)
  then have "rest ! i = 0xFF \<and> rest ! Suc i = 0xE2" by (simp only: u16_app2)
  with has_app2_marker_nth [OF assms(1) i] show False by blast
qed

lemma jpeg_scan_no_marker:
  "\<forall>q \<ge> p0. readUInt16BE jpeg q \<noteq> Inr 0xffe2 \<Longrightarrow> 0 \<le> p0 \<Longrightarrow> p0 \<le> pos
     \<Longrightarrow> \<exists>p. jpeg_scan jpeg pos bufs = Inr (p, bufs)"
proof (induction jpeg pos bufs rule: jpeg_scan.induct)
  case (1 jpeg pos bufs)
  show ?case
  proof (cases "pos < int (length jpeg) - 4")
    case False
    then show ?thesis by (simp add: jpeg_scan.simps [of jpeg pos])
  next
    case True
    from "1.prems" have pos: "0 \<le> pos" by simp
    with True obtain marker len
      where m: "readUInt16BE jpeg pos = Inr marker"
        and l: "readUInt16BE jpeg (pos + 2) = Inr len"
      by (auto simp: readUInt16BE_def)
    from "1.prems" m have "marker \<noteq> 0xffe2" by auto
    with m l have b: "jpeg_body jpeg pos bufs = Inr (pos + len + 2, bufs)"
      by (simp add: jpeg_body_def)
    from l have "0 \<le> len" by (rule readUInt16BE_nonneg)
    with "1.prems"(3) have "p0 \<le> pos + len + 2" by simp
    from "1.IH" [OF True b refl "1.prems"(1,2) this] True b show ?thesis
      by (simp add: jpeg_scan.simps [of jpeg pos])
  qed
qed

lemma jpeg_scan_rest:
  assumes "\<not> has_app2_marker rest"
  shows "\<exists>p. jpeg_scan (pfx @ rest) (int (length pfx)) bufs = Inr (p, bufs)"
proof (rule jpeg_scan_no_marker)
  show "\<forall>q \<ge> int (length pfx). readUInt16BE (pfx @ rest) q \<noteq> Inr 0xffe2"
    using no_marker_read [OF assms] by blast
qed simp_all

lemma jpeg_scan_segments:
  assumes nomark: "\<not> has_app2_marker rest"
  shows "\<forall>s \<in> set segs. length (payload s) \<le> 65533 \<Longrightarrow>
         segs = [] \<or> rest = [] \<or> hd rest = 0xFF \<or> marker_code (last segs) \<noteq> 0xE2 \<Longrightarrow>
         \<exists>p. jpeg_scan (pfx @ concat (map encode_segment segs) @ rest) (int (length pfx)) bufs
               = Inr (p, bufs @ icc_fragments segs)"
proof (induction segs arbitrary: pfx bufs)
  case Nil
  from jpeg_scan_rest [OF nomark, of pfx bufs] show ?case
    by (simp add: icc_fragments_def)
next
  case (Cons s segs)
  let ?rest = "concat (map encode_segment segs) @ rest"
  let ?buf = "pfx @ encode_segment s @ ?rest"
  have rest: "?rest = [] \<or> hd ?rest = 0xFF \<or> marker_code s \<noteq> 0xE2"
  proof (cases segs)
    case Nil
    with Cons.prems(2) show ?thesis by auto
  next
    case (Cons s' segs')
    then show ?thesis by (simp add: encode_segment_hd)
  qed
  from Cons.prems(1) have len: "length (payload s) \<le> 65533" by simp
  have body: "jpeg_body ?buf (int (length pfx)) bufs
      = Inr (int (length (pfx @ encode_segment s)), bufs @ icc_fragments [s])"
    using len rest by (rule jpeg_body_segment)
  from Cons.prems(1) have l': "\<forall>s \<in> set segs. length (payload s) \<le> 65533" by simp
  from Cons.prems(2)
  have r': "segs = [] \<or> rest = [] \<or> hd rest = 0xFF \<or> marker_code (last segs) \<noteq> 0xE2"
    by (cases segs) auto
  from Cons.IH [OF l' r', of "pfx @ encode_segment s" "bufs @ icc_fragments [s]"]
  obtain p where ih: "jpeg_scan ((pfx @ encode_segment s) @ ?rest)
      (int (length (pfx @ encode_segment s))) (bufs @ icc_fragments [s])
      = Inr (p, (bufs @ icc_fragments [s]) @ icc_fragments segs)" by blast
  have frag: "(bufs @ icc_fragments [s]) @ icc_fragments segs = bufs @ icc_fragments (s # segs)"
    by (simp add: icc_fragments_def)
  have buf: "(pfx @ encode_segment s) @ ?rest = ?buf" by simp
  show ?case
  proof (cases "int (length pfx) < int (length ?buf) - 4")
    case True
    have "jpeg_scan ?buf (int (length pfx)) bufs
        = jpeg_scan ?buf (int (length (pfx @ encode_segment s))) (bufs @ icc_fragments [s])"
      using True body by (subst jpeg_scan.simps) simp
    with ih have "jpeg_scan ?buf (int (length pfx)) bufs
        = Inr (p, bufs @ icc_fragments (s # segs))"
      by (simp only: frag buf)
    then show ?thesis by (simp only: concat.simps list.map append_assoc) blast
  next
    case False
    have "length ?buf = length pfx + (length (payload s) + 4) + length ?rest"
      by (simp only: length_append length_encode_segment)
    with False have "length (payload s) = 0 \<and> length ?rest = 0" by linarith
    then have "length (payload s) = 0" and "segs = []"
      by (auto simp: encode_segment_def)
    then have "icc_fragments (s # segs) = []"
      using startsWith_ICC_length [of "payload s"]
      by (auto simp: icc_fragments_def is_icc_segment_def)
    with False show ?thesis by (subst jpeg_scan.simps) simp
  qed
qed

lemma extractFromJPEG_jpeg_file:
  assumes "\<forall>s \<in> set segs. length (payload s) \<le> 65533"
    and "\<not> has_app2_marker rest"
    and "segs = [] \<or> rest = [] \<or> hd rest = 0xFF \<or> marker_code (last segs) \<noteq> 0xE2"
  shows "extractFromJPEG (jpeg_file segs rest)
           = Inr (if icc_fragments segs = [] then None else Some (concat (icc_fragments segs)))"
proof -
  from jpeg_scan_segments [OF assms(2) assms(1) assms(3), of "[0xFF, 0xD8]" "[]"]
  obtain p where "jpeg_scan (jpeg_file segs rest) 2 [] = Inr (p, icc_fragments segs)"
    by (auto simp: jpeg_file_def)
  then show ?thesis by (simp add: extractFromJPEG_def)
qed

lemma literal_icc_segment:
  assumes "marker_code s = 0xE2"
    and "take 11 (payload s) = [0x49, 0x43, 0x43, 0x5F, 0x50, 0x52, 0x4F, 0x46, 0x49, 0x4C, 0x45]"
  shows "is_icc_segment s"
proof -
  have "take 11 (ascii_decode (payload s)) = ascii_decode (take 11 (payload s))"
    by (simp add: ascii_decode_def take_map)
  also have "\<dots> = str ''ICC_PROFILE''"
    by (simp add: assms(2) ascii_decode_def str_def)
  finally have "take 11 (ascii_decode (payload s)) = str ''ICC_PROFILE''" .
  moreover have "length (str ''ICC_PROFILE'') = 11" by (simp add: str_def)
  ultimately show ?thesis by (simp add: is_icc_segment_def startsWith_def assms(1))
qed

text \<open>
  C5, as amended. Let a JPEG buffer consist of the start-of-image marker, marker segments
  that follow one another directly and whose length fields fit 16 bits, and a rest that
  does not contain the byte pair \<open>FF E2\<close>: nothing, the end-of-image marker, or
  entropy-coded data with the markers behind it. (When the last segment is an APP2
  segment, the rest is empty or begins with a marker.) Then \<open>extractFromJPEG\<close>
  returns the concatenation, in file order, of the fragments of the APP2 segments whose
  payload starts with \<open>ICC_PROFILE\<close> once bit 7 of every byte is cleared, a fragment
  being the payload from byte 14 to the end of the segment; with no such segment it
  reports absence, and with exactly one such segment the result is exactly that segment's
  fragment.
\<close>

theorem extractFromJPEG_fragments:
  assumes "\<forall>s \<in> set segs. length (payload s) \<le> 65533"
    and "\<not> has_app2_marker rest"
    and "segs = [] \<or> rest = [] \<or> hd rest = 0xFF \<or> marker_code (last segs) \<noteq> 0xE2"
  shows "extractFromJPEG (jpeg_file segs rest)
           = Inr (if icc_fragments segs = [] then None else Some (concat (icc_fragments segs)))
         \<and> (filter is_icc_segment segs = [s]
              \<longrightarrow> extractFromJPEG (jpeg_file segs rest) = Inr (Some (drop 14 (payload s))))"
proof -
  note g = extractFromJPEG_jpeg_file [OF assms]
  have "extractFromJPEG (jpeg_file segs rest) = Inr (Some (drop 14 (payload s)))"
    if "filter is_icc_segment segs = [s]"
    using g that by (simp add: icc_fragments_def)
  with g show ?thesis by blast
qed

text \<open>
  C5 as stated fails on two buffers. In \<open>jpeg_file jpeg_masked [0xFF, 0xD9]\<close> exactly
  one APP2 segment has a payload that begins with the ASCII literal \<open>ICC_PROFILE\<close>,
  and its fragment is \<open>11 22\<close>; the second APP2 segment has those bytes with bit 7 set,
  and the result is \<open>11 22 AA BB\<close>. In \<open>jpeg_fill\<close> a fill byte \<open>FF\<close> stands
  before the marker of the only segment, an APP2 \<open>ICC_PROFILE\<close> segment with the
  fragment \<open>AA BB\<close>; the scan reads the marker \<open>FFFF\<close> and the length \<open>E200\<close>,
  leaves the buffer and reports absence.
\<close>

theorem extractFromJPEG_fragments_counterexample:
  "filter (\<lambda>s. marker_code s = 0xE2
             \<and> take 11 (payload s)
                 = [0x49, 0x43, 0x43, 0x5F, 0x50, 0x52, 0x4F, 0x46, 0x49, 0x4C, 0x45])
      jpeg_masked = [jpeg_masked ! 0]
   \<and> drop 14 (payload (jpeg_masked ! 0)) = [0x11, 0x22]
   \<and> extractFromJPEG (jpeg_file jpeg_masked [0xFF, 0xD9]) = Inr (Some [0x11, 0x22, 0xAA, 0xBB])
   \<and> drop 3 jpeg_fill = encode_segment (jpeg_two_fragments ! 1) @ [0xFF, 0xD9]
   \<and> extractFromJPEG jpeg_fill = Inr None"
proof -
  have l: "\<forall>s \<in> set jpeg_masked. length (payload s) \<le> 65533"
    by (simp add: jpeg_masked_def)
  have f: "icc_fragments jpeg_masked = [[0x11, 0x22], [0xAA, 0xBB]]"
    by (simp add: icc_fragments_def jpeg_masked_def is_icc_segment_def startsWith_def
        ascii_decode_def str_def)
  have m: "extractFromJPEG (jpeg_file jpeg_masked [0xFF, 0xD9]) = Inr (Some [0x11, 0x22, 0xAA, 0xBB])"
    using extractFromJPEG_jpeg_file [OF l, of "[0xFF, 0xD9]"] by (simp add: f)
  have b: "jpeg_body jpeg_fill 2 [] = Inr (57860, [])"
    by (simp add: jpeg_fill_def jpeg_body_def readUInt16BE_def)
  have "jpeg_scan jpeg_fill 2 [] = Inr (57860, [])"
    by (simp add: jpeg_scan.simps [of _ 2] jpeg_scan.simps [of _ 57860] b)
       (simp add: jpeg_fill_def)
  then have n: "extractFromJPEG jpeg_fill = Inr None" by (simp add: extractFromJPEG_def)
  have e: "drop 3 jpeg_fill = encode_segment (jpeg_two_fragments ! 1) @ [0xFF, 0xD9]"
    by (simp add: jpeg_fill_def jpeg_two_fragments_def encode_segment_def be16_def)
  show ?thesis
    using m n e by (simp add: jpeg_masked_def)
qed

theorem extractFromJPEG_fragments_witness:
  "list_all (\<lambda>s. length (payload s) \<le> 65533) (jpeg_two_fragments @ [jpeg_sos])
   \<and> \<not> has_app2_marker jpeg_scan_data
   \<and> marker_code (last (jpeg_two_fragments @ [jpeg_sos])) \<noteq> 0xE2
   \<and> extractFromJPEG (jpeg_file (jpeg_two_fragments @ [jpeg_sos]) jpeg_scan_data)
       = Inr (Some [0xAA, 0xBB, 0xCC])
   \<and> extractFromJPEG (jpeg_file jpeg_two_fragments [0xFF, 0xD9]) = Inr (Some [0xAA, 0xBB, 0xCC])
   \<and> filter is_icc_segment (take 2 jpeg_two_fragments) = [jpeg_two_fragments ! 1]
   \<and> extractFromJPEG (jpeg_file (take 2 jpeg_two_fragments) []) = Inr (Some [0xAA, 0xBB])
   \<and> extractFromJPEG (jpeg_file (take 1 jpeg_two_fragments) []) = Inr None"
proof -
  have l: "\<forall>s \<in> set jpeg_two_fragments. length (payload s) \<le> 65533"
    by (simp add: jpeg_two_fragments_def)
  then have l2: "\<forall>s \<in> set (take 2 jpeg_two_fragments). length (payload s) \<le> 65533"
    and l1: "\<forall>s \<in> set (take 1 jpeg_two_fragments). length (payload s) \<le> 65533"
    by (auto dest: in_set_takeD)
  from l have l4: "\<forall>s \<in> set (jpeg_two_fragments @ [jpeg_sos]). length (payload s) \<le> 65533"
    by (simp add: jpeg_sos_def)
  have d: "\<not> has_app2_marker jpeg_scan_data" by (simp add: jpeg_scan_data_def)
  have e: "\<not> has_app2_marker [0xFF, 0xD9]" "\<not> has_app2_marker []" by simp_all
  have la: "marker_code (last (jpeg_two_fragments @ [jpeg_sos])) \<noteq> 0xE2"
    by (simp add: jpeg_sos_def)
  have f: "filter is_icc_segment (take 2 jpeg_two_fragments) = [jpeg_two_fragments ! 1]"
    by (simp add: jpeg_two_fragments_def is_icc_segment_def startsWith_def ascii_decode_def str_def)
  have f3: "icc_fragments jpeg_two_fragments = [[0xAA, 0xBB], [0xCC]]"
    by (simp add: icc_fragments_def jpeg_two_fragments_def is_icc_segment_def startsWith_def
        ascii_decode_def str_def)
  have f4: "icc_fragments (jpeg_two_fragments @ [jpeg_sos]) = [[0xAA, 0xBB], [0xCC]]"
    using f3 by (simp add: icc_fragments_def jpeg_sos_def is_icc_segment_def)
  have f2: "icc_fragments (take 2 jpeg_two_fragments) = [[0xAA, 0xBB]]"
    by (simp add: icc_fragments_def jpeg_two_fragments_def is_icc_segment_def startsWith_def
        ascii_decode_def str_def)
  have f1: "icc_fragments (take 1 jpeg_two_fragments) = []"
    by (simp add: icc_fragments_def jpeg_two_fragments_def is_icc_segment_def)
  have p: "drop 14 (payload (jpeg_two_fragments ! 1)) = [0xAA, 0xBB]"
    by (simp add: jpeg_two_fragments_def)
  have a4: "extractFromJPEG (jpeg_file (jpeg_two_fragments @ [jpeg_sos]) jpeg_scan_data)
      = Inr (Some [0xAA, 0xBB, 0xCC])"
    using extractFromJPEG_fragments [OF l4 d, of jpeg_sos] la f4 by simp
  have a3: "extractFromJPEG (jpeg_file jpeg_two_fragments [0xFF, 0xD9])
      = Inr (Some [0xAA, 0xBB, 0xCC])"
    using extractFromJPEG_fragments [OF l e(1), of jpeg_sos] f3 by simp
  have a2: "extractFromJPEG (jpeg_file (take 2 jpeg_two_fragments) []) = Inr (Some [0xAA, 0xBB])"
    using extractFromJPEG_fragments [OF l2 e(2), of "jpeg_two_fragments ! 1"] f p f2
    by simp
  have a1: "extractFromJPEG (jpeg_file (take 1 jpeg_two_fragments) []) = Inr None"
    using extractFromJPEG_fragments [OF l1 e(2), of jpeg_sos] f1 by simp
  from l4 d la a4 a3 f a2 a1 show ?thesis by (simp add: list_all_iff)
qed

subsection \<open>The first iCCP chunk of a PNG file\<close>

lemma be32_value:
  assumes "n < 2 ^ 32"
  shows "uint (of_nat (n div 16777216) :: byte) * 16777216
         + uint (of_nat (n div 65536 mod 256) :: byte) * 65536
         + uint (of_nat (n div 256 mod 256) :: byte) * 256
         + uint (of_nat (n mod 256) :: byte) = int n"
proof -
  define c where "c = n div 16777216"
  define b where "b = n div 65536 mod 256"
  define a where "a = n div 256 mod 256"
  define d where "d = n mod 256"
  from assms have "n < 256 * 16777216" by simp
  then have c: "c < 256" unfolding c_def by (rule less_mult_imp_div_less)
  have b: "b < 256" and a: "a < 256" and d: "d < 256"
    unfolding b_def a_def d_def by (rule mod_less_divisor, rule zero_less_numeral)+
  have q2: "n div 65536 = n div 256 div 256"
    using div_mult2_eq [of n 256 256] by simp
  have q3: "n div 16777216 = n div 65536 div 256"
    using div_mult2_eq [of n 65536 256] by simp
  have e1: "n div 256 * 256 + d = n" unfolding d_def by (rule div_mult_mod_eq)
  have e2: "n div 65536 * 256 + a = n div 256"
    unfolding a_def q2 by (rule div_mult_mod_eq)
  have e3: "c * 256 + b = n div 65536"
    unfolding c_def b_def q3 by (rule div_mult_mod_eq)
  define x where "x = n div 256"
  define y where "y = n div 65536"
  from e1 e2 e3 have "x * 256 + d = n" "y * 256 + a = x" "c * 256 + b = y"
    by (simp_all only: x_def y_def)
  then have "n = c * 16777216 + b * 65536 + a * 256 + d" by simp
  then have "int n = int c * 16777216 + int b * 65536 + int a * 256 + int d" by simp
  then show ?thesis
    unfolding c_def [symmetric] b_def [symmetric] a_def [symmetric] d_def [symmetric]
    by (simp only: uint_byte_of_nat [OF c] uint_byte_of_nat [OF b] uint_byte_of_nat [OF a]
        uint_byte_of_nat [OF d])
qed

lemma readUInt32BE_at:
  "readUInt32BE (pfx @ a # b # c # d # rest) (int (length pfx))
     = Inr (uint a * 16777216 + uint b * 65536 + uint c * 256 + uint d)"
  by (simp add: readUInt32BE_def nth_append nat_add_distrib)

lemma readUInt32BE_be32:
  assumes "n < 2 ^ 32"
  shows "readUInt32BE (pfx @ be32 n @ rest) (int (length pfx)) = Inr (int n)"
  unfolding be32_def using readUInt32BE_at [of pfx _ _ _ _ rest] be32_value [OF assms]
  by (simp only: append.simps)

lemma length_be32: "length (be32 n) = 4"
  by (simp add: be32_def)

lemma length_encode_chunk:
  "wf_chunk c \<Longrightarrow> length (encode_chunk c) = length (chunk_data c) + 12"
  by (simp add: encode_chunk_def wf_chunk_def length_be32)

lemma png_header_at:
  assumes "length ty = 4" and "length data < 2 ^ 32"
  shows "readUInt32BE (pfx @ be32 (length data) @ ty @ data @ rest) (int (length pfx))
           = Inr (int (length data))"
    and "slice (pfx @ be32 (length data) @ ty @ data @ rest)
           (int (length pfx) + 4) (int (length pfx) + 8) = ty"
    and "slice (pfx @ be32 (length data) @ ty @ data @ rest)
           (int (length pfx) + 8) (int (length pfx) + 8 + int (length data)) = data"
proof -
  show "readUInt32BE (pfx @ be32 (length data) @ ty @ data @ rest) (int (length pfx))
           = Inr (int (length data))"
    using assms(2) by (rule readUInt32BE_be32)
  show "slice (pfx @ be32 (length data) @ ty @ data @ rest)
           (int (length pfx) + 4) (int (length pfx) + 8) = ty"
    using assms(1) by (simp add: slice_nonneg nat_add_distrib length_be32)
  show "slice (pfx @ be32 (length data) @ ty @ data @ rest)
           (int (length pfx) + 8) (int (length pfx) + 8 + int (length data)) = data"
    using assms(1) by (simp add: slice_nonneg nat_add_distrib length_be32)
qed

lemma png_body_chunk:
  assumes wf: "wf_chunk c"
    and ty: "ascii_decode (chunk_type c) \<noteq> str ''IEND''"
            "ascii_decode (chunk_type c) \<noteq> str ''iCCP''"
  shows "png_body inflateSync (pfx @ encode_chunk c @ rest) (int (length pfx))
           = Inr (Continue (int (length (pfx @ encode_chunk c))))"
proof -
  obtain t d crc where c: "c = Chunk t d crc" by (cases c)
  from wf have t: "length t = 4" and d: "length d < 2 ^ 32" and crc: "length crc = 4"
    by (simp_all add: wf_chunk_def c)
  have buf: "pfx @ encode_chunk c @ rest = pfx @ be32 (length d) @ t @ d @ crc @ rest"
    by (simp add: encode_chunk_def c)
  have len: "int (length (pfx @ encode_chunk c)) = int (length pfx) + int (length d) + 12"
    using length_encode_chunk [OF wf] by (simp add: c)
  show ?thesis
    unfolding buf len
    using ty png_header_at(1,2) [OF t d, of pfx "crc @ rest"]
    by (simp add: png_body_def c)
qed

lemma png_scan_chunks:
  "\<forall>c \<in> set pre. wf_chunk c \<and> ascii_decode (chunk_type c) \<noteq> str ''IEND''
       \<and> ascii_decode (chunk_type c) \<noteq> str ''iCCP''
   \<Longrightarrow> png_scan inflateSync (pfx @ concat (map encode_chunk pre) @ rest) (int (length pfx))
       = png_scan inflateSync (pfx @ concat (map encode_chunk pre) @ rest)
           (int (length (pfx @ concat (map encode_chunk pre))))"
proof (induction pre arbitrary: pfx)
  case Nil
  show ?case by simp
next
  case (Cons c pre)
  let ?rest = "concat (map encode_chunk pre) @ rest"
  from Cons.prems have wf: "wf_chunk c"
    and ty: "ascii_decode (chunk_type c) \<noteq> str ''IEND''"
            "ascii_decode (chunk_type c) \<noteq> str ''iCCP''"
    and pre: "\<forall>c \<in> set pre. wf_chunk c \<and> ascii_decode (chunk_type c) \<noteq> str ''IEND''
       \<and> ascii_decode (chunk_type c) \<noteq> str ''iCCP''"
    by simp_all
  have body: "png_body inflateSync (pfx @ encode_chunk c @ ?rest) (int (length pfx))
           = Inr (Continue (int (length (pfx @ encode_chunk c))))"
    using wf ty by (rule png_body_chunk)
  have "int (length pfx) < int (length (pfx @ encode_chunk c @ ?rest))"
    using length_encode_chunk [OF wf] by simp
  then have "png_scan inflateSync (pfx @ encode_chunk c @ ?rest) (int (length pfx))
      = png_scan inflateSync (pfx @ encode_chunk c @ ?rest) (int (length (pfx @ encode_chunk c)))"
    using body by (subst png_scan.simps) simp
  also have "\<dots> = png_scan inflateSync ((pfx @ encode_chunk c) @ ?rest)
       (int (length ((pfx @ encode_chunk c) @ concat (map encode_chunk pre))))"
    using Cons.IH [OF pre, of "pfx @ encode_chunk c"] by simp
  finally show ?case by simp
qed

lemma indexOf_first:
  "v \<notin> set xs \<Longrightarrow> indexOf (xs @ v # ys) v = int (length xs)"
  by (induction xs) (auto simp: Let_def)

lemma iccp_chunk_payload:
  assumes t: "length ty = 4" and name: "0 \<notin> set name"
    and d: "length (name @ 0 # 0 # compressed) < 2 ^ 32"
  shows "iccp_chunk inflateSync (pfx @ be32 (length (name @ 0 # 0 # compressed)) @ ty
             @ (name @ 0 # 0 # compressed) @ rest)
           (int (length pfx)) (int (length (name @ 0 # 0 # compressed)))
         = (case inflateSync compressed of
              Inl message \<Rightarrow> Inl (Error (str ''Failed to decompress ICC profile: '' @ message))
            | Inr iccProfile \<Rightarrow> Inr iccProfile)"
proof -
  let ?data = "name @ 0 # 0 # compressed"
  have i: "indexOf ?data 0 = int (length name)" using name by (rule indexOf_first)
  have m: "?data ! nat (int (length name) + 1) = 0"
    by (simp add: nth_append nat_add_distrib)
  have c: "slice_from ?data (int (length name) + 2) = compressed"
    by (simp add: slice_from_def slice_nonneg nat_add_distrib)
  have l: "int (length name) \<noteq> int (length ?data) - 1" by simp
  show ?thesis
    unfolding iccp_chunk_def Let_def png_header_at(3) [OF t d] i m c
    using l by (simp del: length_append)
qed

text \<open>
  C6. Let a PNG buffer consist of an 8-byte signature, well-formed chunks that are neither
  \<open>iCCP\<close> nor \<open>IEND\<close>, a well-formed \<open>iCCP\<close> chunk and any bytes after
  it. If the data of that chunk is a name without zero byte, a zero byte, a compression
  method byte 0 and a compressed payload, then \<open>extractFromPNG\<close> returns what the
  decompressor makes of exactly that payload, whatever follows the chunk; when the
  decompressor fails, the error is \<open>Failed to decompress ICC profile: \<close> followed by
  its message.
\<close>

theorem extractFromPNG_first_iccp:
  assumes sig: "length sig = 8"
    and pre: "\<forall>c \<in> set pre. wf_chunk c \<and> ascii_decode (chunk_type c) \<noteq> str ''IEND''
                \<and> ascii_decode (chunk_type c) \<noteq> str ''iCCP''"
    and icc: "wf_chunk icc" "ascii_decode (chunk_type icc) = str ''iCCP''"
    and data: "chunk_data icc = name @ 0 # 0 # compressed" "0 \<notin> set name"
  shows "extractFromPNG inflateSync (sig @ concat (map encode_chunk pre) @ encode_chunk icc @ rest)
           = (case inflateSync compressed of
                Inl message \<Rightarrow> Inl (Error (str ''Failed to decompress ICC profile: '' @ message))
              | Inr iccProfile \<Rightarrow> Inr (Some iccProfile))"
proof -
  obtain t d crc where c: "icc = Chunk t d crc" by (cases icc)
  let ?data = "name @ 0 # 0 # compressed"
  let ?pfx = "sig @ concat (map encode_chunk pre)"
  let ?png = "?pfx @ be32 (length ?data) @ t @ ?data @ crc @ rest"
  from icc(1) data(1) have t: "length t = 4" and d: "length ?data < 2 ^ 32" and dd: "d = ?data"
    by (simp_all add: wf_chunk_def c)
  have png: "sig @ concat (map encode_chunk pre) @ encode_chunk icc @ rest = ?png"
    by (simp add: encode_chunk_def c dd)
  have ty: "ascii_decode t = str ''iCCP''" using icc(2) by (simp add: c)
  have notend: "str ''iCCP'' \<noteq> str ''IEND''" by (simp add: str_def)
  have body: "png_body inflateSync ?png (int (length ?pfx))
      = (case inflateSync compressed of
           Inl message \<Rightarrow> Inl (Error (str ''Failed to decompress ICC profile: '' @ message))
         | Inr iccProfile \<Rightarrow> Inr (Finished (Some iccProfile)))"
    by (simp only: png_body_def Let_def png_header_at(1,2) [OF t d, of ?pfx "crc @ rest"]
          sum.case ty iccp_chunk_payload [OF t data(2) d, of inflateSync ?pfx "crc @ rest"])
       (simp add: notend split: sum.splits)
  define png where "png = ?png"
  define off where "off = int (length ?pfx)"
  have lt: "off < int (length png)" by (simp add: png_def off_def)
  note body' = body [folded png_def off_def]
  have at: "png_scan inflateSync png off
      = (case inflateSync compressed of
           Inl message \<Rightarrow> Inl (Error (str ''Failed to decompress ICC profile: '' @ message))
         | Inr iccProfile \<Rightarrow> Inr (Some iccProfile))"
    using lt by (subst png_scan.simps) (simp add: body' split: sum.splits)
  have "png_scan inflateSync ?png (int (length sig)) = png_scan inflateSync ?png (int (length ?pfx))"
    using pre by (simp only: append_assoc) (rule png_scan_chunks)
  then have "png_scan inflateSync png 8 = png_scan inflateSync png off"
    by (simp only: png_def off_def sig) simp
  with at show ?thesis
    unfolding png extractFromPNG_def png_def by simp
qed

theorem extractFromPNG_first_iccp_witness:
  "length png_signature = 8 \<and> wf_chunk example_ihdr \<and> wf_chunk example_iccp
   \<and> ascii_decode (chunk_type example_iccp) = str ''iCCP''
   \<and> chunk_data example_iccp = [0x73, 0x52, 0x47, 0x42] @ 0 # 0 # [0x78, 0x9C, 1]
   \<and> extractFromPNG inflate_stub
         (png_signature @ concat (map encode_chunk [example_ihdr]) @ encode_chunk example_iccp
            @ encode_chunk example_iend)
       = Inr (Some [0x78, 0x9C, 1])
   \<and> extractFromPNG inflate_fail
         (png_signature @ concat (map encode_chunk [example_ihdr]) @ encode_chunk example_iccp
            @ encode_chunk example_iend)
       = Inl (Error (str ''Failed to decompress ICC profile: incorrect header check''))"
proof -
  have s: "length png_signature = 8" by (simp add: png_signature_def)
  have p: "\<forall>c \<in> set [example_ihdr]. wf_chunk c \<and> ascii_decode (chunk_type c) \<noteq> str ''IEND''
                \<and> ascii_decode (chunk_type c) \<noteq> str ''iCCP''"
    by (simp add: example_ihdr_def wf_chunk_def ascii_decode_def str_def)
  have w: "wf_chunk example_iccp" by (simp add: example_iccp_def wf_chunk_def)
  have t: "ascii_decode (chunk_type example_iccp) = str ''iCCP''"
    by (simp add: example_iccp_def ascii_decode_def str_def)
  have d: "chunk_data example_iccp = [0x73, 0x52, 0x47, 0x42] @ 0 # 0 # [0x78, 0x9C, 1]"
    by (simp add: example_iccp_def)
  have n: "(0 :: byte) \<notin> set [0x73, 0x52, 0x47, 0x42]" by simp
  have m: "str ''Failed to decompress ICC profile: '' @ str ''incorrect header check''
             = str ''Failed to decompress ICC profile: incorrect header check''"
    by (simp add: str_def)
  show ?thesis
    using extractFromPNG_first_iccp [OF s p w t d n, of inflate_stub "encode_chunk example_iend"]
      extractFromPNG_first_iccp [OF s p w t d n, of inflate_fail "encode_chunk example_iend"]
      s p w t d m
    by (simp add: inflate_stub_def inflate_fail_def)
qed

section \<open>Properties of the decoder\<close>

subsection \<open>Recognised tags\<close>

lemma fourcc_plain:
  assumes "slice buffer h (h + 4) = ascii_bytes s"
    and "s \<in> {str ''desc'', str ''cprt'', str ''dmdd'', str ''vued'', str ''mluc'', str ''text''}"
  shows "getContentAtOffsetAsString buffer h = s"
proof -
  have u: "utf8_toString (ascii_bytes s) = s"
    using assms(2) by (auto simp: utf8_toString_def utf16_units_def ascii_bytes_def str_def)
  have t: "trim s = s"
    using assms(2) by (auto simp: trim_def is_js_space_def str_def)
  have l: "map_of valueMap (toLowerCase s) = None"
    using assms(2) by (auto simp: valueMap_def str_def toLowerCase_def lower_unit_def)
  show ?thesis
    by (simp add: getContentAtOffsetAsString_def assms(1) u t l)
qed

lemma recognised_tag:
  assumes "(tagSignature, key) \<in> set tagMap"
    and "slice buffer h (h + 4) = ascii_bytes tagSignature"
  shows "getContentAtOffsetAsString buffer h = tagSignature"
    and "map_of tagMap tagSignature = Some key"
proof -
  from assms(1) have "tagSignature \<in> {str ''desc'', str ''cprt'', str ''dmdd'', str ''vued''}"
    by (auto simp: tagMap_def)
  then have "tagSignature \<in> {str ''desc'', str ''cprt'', str ''dmdd'', str ''vued'',
      str ''mluc'', str ''text''}" by blast
  with assms(2) show "getContentAtOffsetAsString buffer h = tagSignature"
    by (rule fourcc_plain)
  have "distinct (map fst tagMap)" by (simp add: tagMap_def str_def)
  then show "map_of tagMap tagSignature = Some key"
    using assms(1) by (rule map_of_is_SomeI)
qed

lemma tag_type_at:
  assumes "slice buffer tagOffset (tagOffset + 4) = ascii_bytes (str ty)"
    and "ty \<in> {''desc'', ''mluc'', ''text''}"
  shows "getContentAtOffsetAsString buffer tagOffset = str ty"
  using assms(1)
proof (rule fourcc_plain)
  from assms(2) show "str ty \<in> {str ''desc'', str ''cprt'', str ''dmdd'', str ''vued'',
      str ''mluc'', str ''text''}" by auto
qed

lemma type_codes_differ:
  "str ''mluc'' \<noteq> str ''desc''" "str ''mluc'' \<noteq> str ''text''" "str ''text'' \<noteq> str ''desc''"
  "str ''desc'' \<noteq> str ''mluc''" "str ''text'' \<noteq> str ''mluc''" "str ''desc'' \<noteq> str ''text''"
  by (simp_all add: str_def)

lemma slice4_in_buffer:
  assumes "0 \<le> off" and "slice buffer off (off + 4) = ascii_bytes (str [a, b, c, d])"
  shows "off + 4 \<le> int (length buffer)"
proof -
  from assms(2) have "length (slice buffer off (off + 4)) = 4"
    by (simp add: ascii_bytes_def str_def)
  with assms(1) show ?thesis by (simp add: slice_nonneg)
qed

lemma tag_entry_typed:
  assumes sig: "(tagSignature, key) \<in> set tagMap"
      "slice buffer h (h + 4) = ascii_bytes tagSignature"
    and entry: "readUInt32BE buffer (h + 4) = Inr tagOffset"
      "readUInt32BE buffer (h + 8) = Inr tagSize"
    and ty: "slice buffer tagOffset (tagOffset + 4) = ascii_bytes (str ty)"
      "ty \<in> {''desc'', ''mluc'', ''text''}"
  shows "tag_entry buffer h profile =
           (if ty = ''desc'' then desc_tag buffer tagSignature key tagOffset tagSize profile
            else if ty = ''text'' then Inr (text_tag buffer key tagOffset tagSize profile)
            else mluc_tag buffer tagSignature key tagOffset profile)"
proof -
  from entry(1) have t0: "0 \<le> tagOffset" by (rule readUInt32BE_nonneg)
  from ty(2) obtain a b c d where "ty = [a, b, c, d]" by auto
  with ty(1) t0 have "tagOffset + 4 \<le> int (length buffer)" by (auto intro: slice4_in_buffer)
  then have inb: "\<not> tagOffset > int (length buffer)" by simp
  note r = recognised_tag [OF sig]
  note tt = tag_type_at [OF ty]
  from ty(2) show ?thesis
    by (auto simp: tag_entry_def Let_def r entry inb tt type_codes_differ split: sum.splits)
qed

lemma utf16be_units_length: "length (utf16be_units data) = (length data + 1) div 2"
  by (induction data rule: utf16be_units.induct) simp_all







subsection \<open>Reads that leave the buffer\<close>

text \<open>
  C1. On the 3-byte buffer \<open>00 00 03\<close> the first statement of the decoder,
  \<open>buffer.readUInt32BE(0)\<close> in line 142, leaves the buffer, and the runtime's
  \<open>RangeError\<close> escapes instead of the decoder's own error with the reason
  \<open>length mismatch\<close>. On \<open>short_profile\<close>, which passes both structural checks,
  the read of the tag count at offset 128 in line 172 leaves the buffer. And for a tag
  entry whose offset passes the check of line 182 (\<open>tag offset out of bounds\<close>) while
  the tag's data ends after its type code, the read of line 188 at \<open>tagOffset + 8\<close>
  leaves the buffer. In each case what escapes is not built by \<open>invalid\<close> and
  carries none of its reasons.
\<close>

theorem parse_raises_RangeError:
  "parse [0, 0, 3] = Inl RangeError
   \<and> parse short_profile = Inl RangeError
   \<and> tag_entry (take 16 desc_example) 0 Map.empty = Inl RangeError"
proof -
  have a: "parse [0, 0, 3] = Inl RangeError"
    by (simp add: parse_def readUInt32BE_def)
  have l: "length short_profile = 84" by (simp add: short_profile_def)
  have z: "readUInt32BE short_profile 0 = Inr 84"
    "readUInt32BE short_profile 8 = Inr 0" "readUInt32BE short_profile 64 = Inr 0"
    "readUInt32BE short_profile 4 = Inr 0" "readUInt32BE short_profile 12 = Inr 0"
    "readUInt32BE short_profile 16 = Inr 0" "readUInt32BE short_profile 20 = Inr 0"
    "readUInt32BE short_profile 40 = Inr 0" "readUInt32BE short_profile 48 = Inr 0"
    "readUInt32BE short_profile 52 = Inr 0" "readUInt32BE short_profile 80 = Inr 0"
    by (simp_all add: readUInt32BE_def short_profile_def)
  have o: "readUInt32BE short_profile 128 = Inl RangeError"
    by (simp add: readUInt32BE_def l)
  have s: "utf8_toString (slice short_profile 36 40) = str ''acsp''"
    by (simp add: short_profile_def slice_nonneg utf8_toString_def utf16_units_def str_def)
  have b: "parse short_profile = Inl RangeError"
    by (simp add: parse_def z o s l fourByteAttrs_def hasContentAtOffset_def)
  have k: "(str ''desc'', ''description'') \<in> set tagMap" by (simp add: tagMap_def)
  have sl: "slice (take 16 desc_example) 0 (0 + 4) = ascii_bytes (str ''desc'')"
    "slice (take 16 desc_example) 12 (12 + 4) = ascii_bytes (str ''desc'')"
    by (simp_all add: desc_example_def slice_nonneg ascii_bytes_def str_def)
  have r: "readUInt32BE (take 16 desc_example) (0 + 4) = Inr 12"
    "readUInt32BE (take 16 desc_example) (0 + 8) = Inr 100"
    "readUInt32BE (take 16 desc_example) 20 = Inl RangeError"
    by (simp_all add: desc_example_def readUInt32BE_def)
  have "tag_entry (take 16 desc_example) 0 Map.empty
      = desc_tag (take 16 desc_example) (str ''desc'') ''description'' 12 100 Map.empty"
    using tag_entry_typed [OF k sl(1) r(1,2) sl(2), of Map.empty] by simp
  then have c: "tag_entry (take 16 desc_example) 0 Map.empty = Inl RangeError"
    by (simp add: desc_tag_def r(3))
  from a b c show ?thesis by simp
qed

subsection \<open>Four-byte codes\<close>

lemma ascii_lower_byte_cases:
  "ascii_lower_byte x = y \<Longrightarrow> x = y \<or> x = y - 0x20"
  by (auto simp: ascii_lower_byte_def split: if_splits)

lemma utf8_points_ascii:
  "\<forall>b \<in> set raw. b < 0x80 \<Longrightarrow> utf8_points raw = map unat raw"
  by (induction raw) simp_all

lemma utf16_units_bytes:
  "concat (map utf16_units (map unat (raw :: buffer))) = map unat raw"
proof (induction raw)
  case Nil
  show ?case by simp
next
  case (Cons b raw)
  have "unat b < 2 ^ LENGTH(8)" by (rule unsigned_less)
  then have "unat b < 0x10000" by simp
  with Cons show ?case by (simp add: utf16_units_def)
qed

lemma utf8_toString_ascii:
  assumes "\<forall>b \<in> set raw. b < 0x80"
  shows "utf8_toString raw = map unat raw"
proof -
  from assms have "utf8_points raw = map unat raw" by (rule utf8_points_ascii)
  then show ?thesis unfolding utf8_toString_def by (simp only: utf16_units_bytes)
qed

lemma lower_unit_byte: "lower_unit (unat (b :: byte)) = unat (ascii_lower_byte b)"
proof -
  have "unat b < 2 ^ LENGTH(8)" by (rule unsigned_less)
  then have lt: "unat b < 256" by simp
  show ?thesis
  proof (cases "0x41 \<le> b \<and> b \<le> 0x5A")
    case True
    then have r: "65 \<le> unat b" "unat b \<le> 90" by (simp_all add: word_le_nat_alt)
    then have "unat b + unat (0x20 :: byte) < 2 ^ LENGTH(8)" by simp
    then have "unat (b + 0x20) = unat b + unat (0x20 :: byte)" by (simp only: unat_add_lem)
    with True r show ?thesis by (simp add: lower_unit_def ascii_lower_byte_def)
  next
    case False
    then have nr: "\<not> (65 \<le> unat b \<and> unat b \<le> 90)" by (simp add: word_le_nat_alt)
    from False have 1: "ascii_lower_byte b = b"
      unfolding ascii_lower_byte_def by (rule if_not_P)
    from nr lt have 2: "lower_unit (unat b) = unat b"
      unfolding lower_unit_def by auto
    from 1 2 show ?thesis by simp
  qed
qed

lemma toLowerCase_bytes:
  "toLowerCase (map unat (raw :: buffer)) = map unat (map ascii_lower_byte raw)"
  by (simp add: toLowerCase_def lower_unit_byte)

lemma letter_byte:
  assumes "ascii_lower_byte x = y" and "y = 0x6D \<or> y = 0x6E \<or> y = 0x74 \<or> y = 0x72"
  shows "x < 0x80 \<and> \<not> is_js_space (unat x) \<and> x \<noteq> 0"
proof -
  from assms(1) have "x = y \<or> x = y - 0x20" by (rule ascii_lower_byte_cases)
  with assms(2) have "x = 0x6D \<or> x = 0x6E \<or> x = 0x74 \<or> x = 0x72
      \<or> x = 0x4D \<or> x = 0x4E \<or> x = 0x54 \<or> x = 0x52" by auto
  then show ?thesis by (elim disjE) (simp_all add: is_js_space_def)
qed

lemma mntr_any_case:
  assumes "map ascii_lower_byte raw = ascii_bytes (str ''mntr'')"
  shows "raw \<noteq> [0, 0, 0, 0]"
    and "(let v = trim (utf8_toString raw)
          in case map_of valueMap (toLowerCase v) of Some name \<Rightarrow> name | None \<Rightarrow> v)
         = str ''Monitor''"
proof -
  have "ascii_bytes (str ''mntr'') = [0x6D, 0x6E, 0x74, 0x72]"
    by (simp add: ascii_bytes_def str_def)
  with assms have m: "map ascii_lower_byte raw = [0x6D, 0x6E, 0x74, 0x72]" by simp
  then obtain a b c d where raw: "raw = [a, b, c, d]"
    and l: "ascii_lower_byte a = 0x6D" "ascii_lower_byte b = 0x6E"
      "ascii_lower_byte c = 0x74" "ascii_lower_byte d = 0x72"
    by (auto simp: map_eq_Cons_conv)
  have a: "a < 0x80 \<and> \<not> is_js_space (unat a) \<and> a \<noteq> 0" using l(1) by (rule letter_byte) simp
  have b: "b < 0x80 \<and> \<not> is_js_space (unat b) \<and> b \<noteq> 0" using l(2) by (rule letter_byte) simp
  have c: "c < 0x80 \<and> \<not> is_js_space (unat c) \<and> c \<noteq> 0" using l(3) by (rule letter_byte) simp
  have d: "d < 0x80 \<and> \<not> is_js_space (unat d) \<and> d \<noteq> 0" using l(4) by (rule letter_byte) simp
  from a b c d have u: "utf8_toString raw = map unat raw"
    by (intro utf8_toString_ascii) (simp add: raw)
  from a d have t: "trim (map unat raw) = map unat raw"
    by (simp add: trim_def raw)
  have lo: "toLowerCase (map unat raw) = str ''mntr''"
    by (simp only: toLowerCase_bytes m) (simp add: str_def)
  have v: "map_of valueMap (str ''mntr'') = Some (str ''Monitor'')"
    by (simp add: valueMap_def str_def)
  from a show "raw \<noteq> [0, 0, 0, 0]" by (simp add: raw)
  show "(let v = trim (utf8_toString raw)
          in case map_of valueMap (toLowerCase v) of Some name \<Rightarrow> name | None \<Rightarrow> v)
         = str ''Monitor''"
    by (simp only: u t lo v Let_def option.case)
qed

lemma read32_zero:
  "(uint (a :: byte) * 16777216 + uint (b :: byte) * 65536 + uint (c :: byte) * 256
      + uint (d :: byte) = 0) = (a = 0 \<and> b = 0 \<and> c = 0 \<and> d = 0)"
proof -
  have "0 \<le> uint a" "0 \<le> uint b" "0 \<le> uint c" "0 \<le> uint d" by simp_all
  then have "(uint a * 16777216 + uint b * 65536 + uint c * 256 + uint d = 0)
      = (uint a = 0 \<and> uint b = 0 \<and> uint c = 0 \<and> uint d = 0)" by linarith
  then show ?thesis by (simp add: uint_0_iff)
qed

lemma take4_drop:
  assumes "0 \<le> off" and "off + 4 \<le> int (length buffer)"
  shows "take 4 (drop (nat off) buffer)
     = [buffer ! nat off, buffer ! nat (off + 1), buffer ! nat (off + 2), buffer ! nat (off + 3)]"
proof -
  have l: "length (take 4 (drop (nat off) buffer)) = 4" using assms by simp
  have "take 4 (drop (nat off) buffer) ! i = buffer ! (nat off + i)" if "i < 4" for i
    using that assms by simp
  then have n: "take 4 (drop (nat off) buffer) ! 0 = buffer ! nat off"
    "take 4 (drop (nat off) buffer) ! 1 = buffer ! nat (off + 1)"
    "take 4 (drop (nat off) buffer) ! 2 = buffer ! nat (off + 2)"
    "take 4 (drop (nat off) buffer) ! 3 = buffer ! nat (off + 3)"
    using assms(1) by (simp_all add: nat_add_distrib)
  show ?thesis
    by (rule nth_equalityI) (use l n in \<open>auto simp: less_Suc_eq numeral_eq_Suc\<close>)
qed

lemma hasContent_bytes:
  assumes "hasContentAtOffset buffer off = Inr has"
  shows "has = (take 4 (drop (nat off) buffer) \<noteq> [0, 0, 0, 0])"
    and "slice buffer off (off + 4) = take 4 (drop (nat off) buffer)"
proof -
  from assms have r: "0 \<le> off" "off + 4 \<le> int (length buffer)"
    by (auto simp: hasContentAtOffset_def readUInt32BE_def split: if_splits)
  have "off + 1 + 1 = off + 2" "off + 2 + 1 = off + 3" by simp_all
  from assms r show "has = (take 4 (drop (nat off) buffer) \<noteq> [0, 0, 0, 0])"
    by (auto simp: hasContentAtOffset_def readUInt32BE_def take4_drop read32_zero)
  from r show "slice buffer off (off + 4) = take 4 (drop (nat off) buffer)"
    by (simp add: slice_nonneg drop_take nat_add_distrib nat_diff_distrib')
qed

lemma four_byte_attributes_step:
  assumes "four_byte_attributes buffer (attr # attrs) profile = Inr profile'"
  obtains has where "hasContentAtOffset buffer (fst attr) = Inr has"
    and "four_byte_attributes buffer attrs
           (if has then profile(snd attr \<mapsto> Str (getContentAtOffsetAsString buffer (fst attr)))
            else profile) = Inr profile'"
proof (cases "hasContentAtOffset buffer (fst attr)")
  case (Inl e)
  with assms show ?thesis by simp
next
  case (Inr has)
  with assms that show ?thesis by simp
qed

lemma four_byte_attributes_other:
  "four_byte_attributes buffer attrs profile = Inr profile' \<Longrightarrow> name \<notin> snd ` set attrs
     \<Longrightarrow> profile' name = profile name"
proof (induction attrs arbitrary: profile)
  case Nil
  then show ?case by simp
next
  case (Cons attr attrs)
  from Cons.prems(1) obtain has
    where rest: "four_byte_attributes buffer attrs
           (if has then profile(snd attr \<mapsto> Str (getContentAtOffsetAsString buffer (fst attr)))
            else profile) = Inr profile'"
    by (rule four_byte_attributes_step)
  from Cons.prems(2) have n1: "snd attr \<noteq> name" and n2: "name \<notin> snd ` set attrs" by auto
  from rest n2 have "profile' name
      = (if has then profile(snd attr \<mapsto> Str (getContentAtOffsetAsString buffer (fst attr)))
         else profile) name"
    by (rule Cons.IH)
  with n1 show ?case by simp
qed

lemma four_byte_attributes_at:
  "four_byte_attributes buffer attrs profile = Inr profile' \<Longrightarrow> distinct (map snd attrs)
     \<Longrightarrow> (off, name) \<in> set attrs
     \<Longrightarrow> \<exists>has. hasContentAtOffset buffer off = Inr has
           \<and> profile' name = (if has then Some (Str (getContentAtOffsetAsString buffer off))
                               else profile name)"
proof (induction attrs arbitrary: profile)
  case Nil
  then show ?case by simp
next
  case (Cons attr attrs)
  from Cons.prems(1) obtain has where has: "hasContentAtOffset buffer (fst attr) = Inr has"
    and rest: "four_byte_attributes buffer attrs
        (if has then profile(snd attr \<mapsto> Str (getContentAtOffsetAsString buffer (fst attr)))
         else profile) = Inr profile'"
    by (rule four_byte_attributes_step)
  let ?p = "if has then profile(snd attr \<mapsto> Str (getContentAtOffsetAsString buffer (fst attr)))
         else profile"
  show ?case
  proof (cases "(off, name) = attr")
    case True
    then have fs: "fst attr = off" "snd attr = name" by auto
    from Cons.prems(2) fs have "name \<notin> snd ` set attrs" by simp
    with rest have "profile' name = ?p name" by (rule four_byte_attributes_other)
    then have "profile' name = (if has then Some (Str (getContentAtOffsetAsString buffer off))
                               else profile name)"
      by (simp add: fs)
    with has fs show ?thesis by simp
  next
    case False
    from Cons.prems(2) have d: "distinct (map snd attrs)" by simp
    from Cons.prems(3) False have m: "(off, name) \<in> set attrs" by auto
    then have "name \<in> snd ` set attrs" by force
    with Cons.prems(2) have n: "snd attr \<noteq> name" by auto
    from Cons.IH [OF rest d m] obtain has'
      where h': "hasContentAtOffset buffer off = Inr has'"
        and v: "profile' name = (if has' then Some (Str (getContentAtOffsetAsString buffer off))
                               else ?p name)" by blast
    from n have "?p name = profile name" by simp
    with h' v show ?thesis by simp
  qed
qed

lemma tag_entry_other:
  assumes "tag_entry buffer h profile = Inr profile'" and "name \<notin> snd ` set tagMap"
  shows "profile' name = profile name"
proof (cases "map_of tagMap (getContentAtOffsetAsString buffer h)")
  case None
  with assms(1) show ?thesis by (simp add: tag_entry_def)
next
  case (Some key)
  then have "(getContentAtOffsetAsString buffer h, key) \<in> set tagMap" by (rule map_of_SomeD)
  with assms(2) have k: "key \<noteq> name" by force
  from assms(1) Some k show ?thesis
    by (auto simp: tag_entry_def Let_def desc_tag_def text_tag_def mluc_tag_def
        split: sum.splits if_splits)
qed

lemma tag_walk_other:
  "tag_walk n buffer h profile = Inr profile' \<Longrightarrow> name \<notin> snd ` set tagMap
     \<Longrightarrow> profile' name = profile name"
proof (induction n arbitrary: h profile)
  case 0
  then show ?case by simp
next
  case (Suc n)
  from Suc.prems(1) obtain p1 where e: "tag_entry buffer h profile = Inr p1"
    and w: "tag_walk n buffer (h + 12) p1 = Inr profile'"
    by (auto split: sum.splits)
  from Suc.IH [OF w Suc.prems(2)] tag_entry_other [OF e Suc.prems(2)] show ?case by simp
qed

text \<open>
  C7, as amended. When decoding succeeds, each of the eight attributes \<open>cmm\<close> at
  offset 4, \<open>deviceClass\<close> at 12, \<open>colorSpace\<close> at 16, \<open>connectionSpace\<close> at
  20, \<open>platform\<close> at 40, \<open>manufacturer\<close> at 48, \<open>model\<close> at 52 and
  \<open>creator\<close> at 80 is present in the result if and only if its four bytes are not
  all zero. When present, its value is the UTF-8 decoding of the four bytes with white
  space removed from both ends, null characters staying, looked up through its lower case
  in \<open>valueMap\<close>; a code that is not a key passes through as trimmed. Device class
  bytes that read \<open>mntr\<close> in any letter case give \<open>Monitor\<close>.
\<close>

theorem four_byte_code_attributes:
  assumes "parse buffer = Inr profile" and "(off, name) \<in> set fourByteAttrs"
  shows "length (take 4 (drop (nat off) buffer)) = 4
         \<and> profile name =
             (if take 4 (drop (nat off) buffer) = [0, 0, 0, 0] then None
              else Some (Str (let v = trim (utf8_toString (take 4 (drop (nat off) buffer)))
                              in case map_of valueMap (toLowerCase v) of
                                   Some human \<Rightarrow> human
                                 | None \<Rightarrow> v)))
         \<and> (map ascii_lower_byte (take 4 (drop 12 buffer)) = ascii_bytes (str ''mntr'')
              \<longrightarrow> profile ''deviceClass'' = Some (Str (str ''Monitor'')))"
proof -
  from assms(1) obtain version intent p1 tagCount
    where p1: "four_byte_attributes buffer fourByteAttrs
          [''version'' \<mapsto> table_get versionMap version,
           ''intent'' \<mapsto> table_get intentMap intent] = Inr p1"
      and w: "tag_walk (nat tagCount) buffer 132 p1 = Inr profile"
    by (auto simp: parse_def split: sum.splits if_splits)
  have d: "distinct (map snd fourByteAttrs)" by (simp add: fourByteAttrs_def)
  have val: "profile name' =
      (if take 4 (drop (nat off') buffer) = [0, 0, 0, 0] then None
       else Some (Str (let v = trim (utf8_toString (take 4 (drop (nat off') buffer)))
                       in case map_of valueMap (toLowerCase v) of
                            Some human \<Rightarrow> human
                          | None \<Rightarrow> v)))"
    and len: "length (take 4 (drop (nat off') buffer)) = 4"
    if m: "(off', name') \<in> set fourByteAttrs" for off' name'
  proof -
    from m have nt: "name' \<notin> snd ` set tagMap"
      by (auto simp: fourByteAttrs_def tagMap_def)
    from m have init: "[''version'' \<mapsto> table_get versionMap version,
           ''intent'' \<mapsto> table_get intentMap intent] name' = None"
      by (auto simp: fourByteAttrs_def)
    from four_byte_attributes_at [OF p1 d m] obtain has
      where has: "hasContentAtOffset buffer off' = Inr has"
        and v: "p1 name' = (if has then Some (Str (getContentAtOffsetAsString buffer off'))
                            else None)"
      by (auto simp: init simp del: fun_upd_apply)
    note hb = hasContent_bytes [OF has]
    from has show "length (take 4 (drop (nat off') buffer)) = 4"
      by (auto simp: hasContentAtOffset_def readUInt32BE_def split: if_splits)
    from tag_walk_other [OF w nt] v show "profile name' =
      (if take 4 (drop (nat off') buffer) = [0, 0, 0, 0] then None
       else Some (Str (let v = trim (utf8_toString (take 4 (drop (nat off') buffer)))
                       in case map_of valueMap (toLowerCase v) of
                            Some human \<Rightarrow> human
                          | None \<Rightarrow> v)))"
      by (simp add: hb getContentAtOffsetAsString_def)
  qed
  have "profile ''deviceClass'' = Some (Str (str ''Monitor''))"
    if "map ascii_lower_byte (take 4 (drop 12 buffer)) = ascii_bytes (str ''mntr'')"
  proof -
    have "(12, ''deviceClass'') \<in> set fourByteAttrs" by (simp add: fourByteAttrs_def)
    from val [OF this] mntr_any_case [OF that] show ?thesis by simp
  qed
  with val [OF assms(2)] len [OF assms(2)] show ?thesis by blast
qed

lemma example_profile_reads:
  "readUInt32BE example_profile 0 = Inr 132"
  "readUInt32BE example_profile 8 = Inr 0x04300000"
  "readUInt32BE example_profile 64 = Inr 1"
  "readUInt32BE example_profile 4 = Inr 0x61620000"
  "readUInt32BE example_profile 12 = Inr 0x4D6E5472"
  "readUInt32BE example_profile 16 = Inr 0"
  "readUInt32BE example_profile 20 = Inr 0"
  "readUInt32BE example_profile 40 = Inr 0"
  "readUInt32BE example_profile 48 = Inr 0"
  "readUInt32BE example_profile 52 = Inr 0x20616263"
  "readUInt32BE example_profile 80 = Inr 0"
  "readUInt32BE example_profile 128 = Inr 0"
  by (simp_all add: readUInt32BE_def example_profile_def)

lemma example_profile_parse:
  "parse example_profile
     = Inr [''version'' \<mapsto> table_get versionMap 0x04300000,
            ''intent'' \<mapsto> table_get intentMap 1,
            ''cmm'' \<mapsto> Str (getContentAtOffsetAsString example_profile 4),
            ''deviceClass'' \<mapsto> Str (getContentAtOffsetAsString example_profile 12),
            ''model'' \<mapsto> Str (getContentAtOffsetAsString example_profile 52)]"
proof -
  have l: "int (length example_profile) = 132" by (simp add: example_profile_def)
  have s: "utf8_toString (slice example_profile 36 40) = str ''acsp''"
    by (simp add: example_profile_def slice_nonneg utf8_toString_def utf16_units_def str_def)
  show ?thesis
    by (simp add: parse_def example_profile_reads l s fourByteAttrs_def hasContentAtOffset_def)
qed

lemma example_profile_codes:
  "getContentAtOffsetAsString example_profile 4 = [97, 98, 0, 0]"
  "getContentAtOffsetAsString example_profile 52 = [97, 98, 99]"
proof -
  have s: "slice example_profile 4 8 = [0x61, 0x62, 0, 0]"
    "slice example_profile 52 56 = [0x20, 0x61, 0x62, 0x63]"
    by (simp_all add: example_profile_def slice_nonneg)
  have u: "utf8_toString [0x61, 0x62, 0, 0] = [97, 98, 0, 0]"
    "utf8_toString [0x20, 0x61, 0x62, 0x63] = [32, 97, 98, 99]"
    by (simp_all add: utf8_toString_def utf16_units_def)
  have t: "trim [97, 98, 0, 0] = [97, 98, 0, 0]" "trim [32, 97, 98, 99] = [97, 98, 99]"
    by (simp_all add: trim_def is_js_space_def)
  have v: "map_of valueMap (toLowerCase [97, 98, 0, 0]) = None"
    "map_of valueMap (toLowerCase [97, 98, 99]) = None"
    by (simp_all add: valueMap_def str_def toLowerCase_def lower_unit_def)
  show "getContentAtOffsetAsString example_profile 4 = [97, 98, 0, 0]"
    by (simp add: getContentAtOffsetAsString_def s u t v)
  show "getContentAtOffsetAsString example_profile 52 = [97, 98, 99]"
    by (simp add: getContentAtOffsetAsString_def s u t v)
qed

text \<open>
  C7 as stated fails on \<open>example_profile\<close>: the \<open>cmm\<close> bytes \<open>61 62 00 00\<close>
  decode to \<open>ab\<close> followed by two null characters, which are not stripped; and the
  \<open>model\<close> bytes \<open>20 61 62 63\<close> decode to \<open>abc\<close>, the space in front being
  stripped as well.
\<close>

theorem four_byte_code_attributes_counterexample:
  "take 4 (drop 4 example_profile) = [0x61, 0x62, 0, 0]
   \<and> map_sum id (\<lambda>profile. profile ''cmm'') (parse example_profile)
       = Inr (Some (Str [0x61, 0x62, 0, 0]))
   \<and> take 4 (drop 52 example_profile) = [0x20, 0x61, 0x62, 0x63]
   \<and> map_sum id (\<lambda>profile. profile ''model'') (parse example_profile)
       = Inr (Some (Str [0x61, 0x62, 0x63]))"
  by (simp add: example_profile_parse example_profile_codes) (simp add: example_profile_def)

theorem four_byte_code_attributes_witness:
  "(4, ''cmm'') \<in> set fourByteAttrs \<and> (12, ''deviceClass'') \<in> set fourByteAttrs
   \<and> (48, ''manufacturer'') \<in> set fourByteAttrs
   \<and> map ascii_lower_byte (take 4 (drop 12 example_profile)) = ascii_bytes (str ''mntr'')
   \<and> map_sum id (\<lambda>profile. (profile ''cmm'', profile ''deviceClass'', profile ''manufacturer''))
         (parse example_profile)
       = Inr (Some (Str [0x61, 0x62, 0, 0]), Some (Str (str ''Monitor'')), None)"
proof -
  obtain profile where p: "parse example_profile = Inr profile"
    using example_profile_parse by blast
  have m: "(4, ''cmm'') \<in> set fourByteAttrs" "(12, ''deviceClass'') \<in> set fourByteAttrs"
    "(48, ''manufacturer'') \<in> set fourByteAttrs"
    by (simp_all add: fourByteAttrs_def)
  have b: "take 4 (drop (nat 4) example_profile) = [0x61, 0x62, 0, 0]"
    "take 4 (drop (nat 48) example_profile) = [0, 0, 0, 0]"
    "take 4 (drop 12 example_profile) = [0x4D, 0x6E, 0x54, 0x72]"
    by (simp_all add: example_profile_def)
  have lo: "map ascii_lower_byte (take 4 (drop 12 example_profile)) = ascii_bytes (str ''mntr'')"
    by (simp add: b ascii_lower_byte_def ascii_bytes_def str_def)
  have u: "utf8_toString [0x61, 0x62, 0, 0] = [97, 98, 0, 0]"
    by (simp add: utf8_toString_def utf16_units_def)
  have t: "trim [97, 98, 0, 0] = [97, 98, 0, 0]" by (simp add: trim_def is_js_space_def)
  have v: "map_of valueMap (toLowerCase [97, 98, 0, 0]) = None"
    by (simp add: valueMap_def str_def toLowerCase_def lower_unit_def)
  from four_byte_code_attributes [OF p m(1), unfolded b(1)]
  have c: "profile ''cmm'' = Some (Str [0x61, 0x62, 0, 0])"
    by (simp add: u t v)
  from four_byte_code_attributes [OF p m(2)] lo
  have d: "profile ''deviceClass'' = Some (Str (str ''Monitor''))" by blast
  from four_byte_code_attributes [OF p m(3), unfolded b(2)]
  have e: "profile ''manufacturer'' = None"
    by simp
  from m lo p c d e show ?thesis by simp
qed

end
